theory Spec2Isabelle
  imports
    Complex_Main
    "HOL-Library.Multiset"
    "HOL-Library.Product_Lexorder"
    "HOL-Library.Char_ord"
    "HOL-Library.List_Lexorder"
begin

section \<open>GSEApy \<^verbatim>\<open>stats.py\<close>: enrichment p-values and multiple-testing correction\<close>

text \<open>
  The module has four functions: \<^verbatim>\<open>calc_pvalues\<close>, \<^verbatim>\<open>_ecdf\<close>, \<^verbatim>\<open>fdrcorrection\<close> and
  \<^verbatim>\<open>multiple_testing_correction\<close>.  They are written against numpy arrays of
  \<^verbatim>\<open>float64\<close> and against \<^verbatim>\<open>scipy.stats.hypergeom\<close>.  The embedding below keeps the
  statements of the source one by one; numpy arrays are lists, and the numpy
  operations the source calls are given as list functions of the same name.
\<close>

subsection \<open>Array elements\<close>

text \<open>
  An element of a \<^verbatim>\<open>float64\<close> array is either NaN or a number.  Numbers are
  taken as reals: rounding and the two infinities are left out of the model.
  The arithmetic and the comparisons follow IEEE on NaN: an operation with a
  NaN operand is NaN, a comparison with a NaN operand is false.
\<close>

datatype float64 = NaN | Fin real

fun isnan :: "float64 \<Rightarrow> bool" where
  "isnan NaN = True"
| "isnan (Fin r) = False"

fun fmul :: "float64 \<Rightarrow> float64 \<Rightarrow> float64" where
  "fmul (Fin a) (Fin b) = Fin (a * b)"
| "fmul a b = NaN"

text \<open>
  Division by zero gives an infinity or NaN in numpy; the model answers NaN
  there.  The only divisors of this module are the numbers \<open>nobs\<close> and
  \<open>i / nobs\<close> with \<open>1 \<le> i \<le> nobs\<close>, inside \<^verbatim>\<open>_ecdf\<close> and \<^verbatim>\<open>fdrcorrection\<close>.
\<close>

fun fdiv :: "float64 \<Rightarrow> float64 \<Rightarrow> float64" where
  "fdiv (Fin a) (Fin b) = (if b = 0 then NaN else Fin (a / b))"
| "fdiv a b = NaN"

fun fle :: "float64 \<Rightarrow> float64 \<Rightarrow> bool" where
  "fle (Fin a) (Fin b) = (a \<le> b)"
| "fle a b = False"

fun flt :: "float64 \<Rightarrow> float64 \<Rightarrow> bool" where
  "flt (Fin a) (Fin b) = (a < b)"
| "flt a b = False"

text \<open>\<^verbatim>\<open>np.minimum\<close> propagates NaN.\<close>

fun fminimum :: "float64 \<Rightarrow> float64 \<Rightarrow> float64" where
  "fminimum (Fin a) (Fin b) = Fin (min a b)"
| "fminimum a b = NaN"

text \<open>A boolean stored into a \<^verbatim>\<open>float64\<close> array is cast: True is 1.0, False is 0.0.\<close>

definition bool_to_float :: "bool \<Rightarrow> float64" where
  "bool_to_float b = (if b then Fin 1 else Fin 0)"

subsection \<open>The numpy operations used by the module\<close>

datatype error = ValueError string | TypeError string

text \<open>\<^verbatim>\<open>a[mask]\<close>: the entries of \<open>a\<close> where the mask is true, in order.\<close>

definition compress :: "'a list \<Rightarrow> bool list \<Rightarrow> 'a list" where
  "compress a msk = map fst (filter snd (zip a msk))"

text \<open>
  \<^verbatim>\<open>a[mask] = vs\<close>: the values are written, in order, to the positions where the
  mask is true.  numpy checks first that there are as many values as true
  positions and raises \<^verbatim>\<open>ValueError\<close> otherwise (a value array of one element
  would be broadcast instead; the module never passes one unless exactly one
  position is true).
\<close>

fun put_mask :: "'a list \<Rightarrow> bool list \<Rightarrow> 'a list \<Rightarrow> 'a list" where
  "put_mask (x # xs) (b # bs) vs =
     (if b then (case vs of [] \<Rightarrow> x # put_mask xs bs [] | v # vs' \<Rightarrow> v # put_mask xs bs vs')
      else x # put_mask xs bs vs)"
| "put_mask xs bs vs = xs"

definition set_mask :: "'a list \<Rightarrow> bool list \<Rightarrow> 'a list \<Rightarrow> error + 'a list" where
  "set_mask a msk vs =
     (if length vs \<noteq> length (filter id msk)
      then Inl (ValueError ''NumPy boolean array indexing assignment cannot assign input values'')
      else Inr (put_mask a msk vs))"

text \<open>
  \<^verbatim>\<open>np.argsort\<close>: the indices that sort the array, NaN last.  numpy's default
  sort is not stable, so the order among equal entries is not fixed by numpy;
  the model takes the stable order.  The lemmas on \<open>fdr_body\<close> below hold for
  any index array that sorts.
\<close>

definition sort_key_of :: "float64 \<Rightarrow> bool \<times> real" where
  "sort_key_of x = (case x of NaN \<Rightarrow> (True, 0) | Fin r \<Rightarrow> (False, r))"

definition argsort :: "float64 list \<Rightarrow> nat list" where
  "argsort a = sort_key (\<lambda>i. sort_key_of (a ! i)) [0..<length a]"

text \<open>\<^verbatim>\<open>np.take(a, ind)\<close>; every index the module passes is in range.\<close>

definition take_ind :: "'a list \<Rightarrow> nat list \<Rightarrow> 'a list" where
  "take_ind a ind = map (\<lambda>i. a ! i) ind"

text \<open>\<^verbatim>\<open>np.nonzero(b)[0]\<close>: the indices of the true entries, ascending.\<close>

definition nonzero :: "bool list \<Rightarrow> nat list" where
  "nonzero b = filter (\<lambda>i. b ! i) [0..<length b]"

text \<open>\<^verbatim>\<open>np.minimum.accumulate\<close>: the running minimum from the left.\<close>

fun accumulate_from :: "float64 \<Rightarrow> float64 list \<Rightarrow> float64 list" where
  "accumulate_from m [] = []"
| "accumulate_from m (x # xs) = fminimum m x # accumulate_from (fminimum m x) xs"

fun minimum_accumulate :: "float64 list \<Rightarrow> float64 list" where
  "minimum_accumulate [] = []"
| "minimum_accumulate (x # xs) = x # accumulate_from x xs"

text \<open>
  \<^verbatim>\<open>out = np.empty_like(v); out[ind] = v\<close>: \<open>out[ind[k]] = v[k]\<close> for every \<open>k\<close>, in
  order.  \<^verbatim>\<open>empty_like\<close> leaves the entries uninitialised; the model starts from
  a given filler \<open>d\<close>, and every entry is overwritten when \<open>ind\<close> is a
  permutation of the indices.
\<close>

definition put_ind :: "'a \<Rightarrow> nat list \<Rightarrow> 'a list \<Rightarrow> 'a list" where
  "put_ind d ind v = foldl (\<lambda>out (i, x). out[i := x]) (replicate (length v) d) (zip ind v)"

subsection \<open>\<^verbatim>\<open>_ecdf\<close> and \<^verbatim>\<open>fdrcorrection\<close>\<close>

definition ecdf :: "'a list \<Rightarrow> float64 list" where
  "ecdf x = (let nobs = length x
             in map (\<lambda>i. fdiv (Fin (real i)) (Fin (real nobs))) [1..<nobs + 1])"

text \<open>The statements of \<^verbatim>\<open>fdrcorrection\<close> after the \<^verbatim>\<open>argsort\<close>, for a given index array.\<close>

definition provisional :: "float64 list \<Rightarrow> float64 \<Rightarrow> bool list" where
  "provisional pvals_sorted alpha =
     map2 (\<lambda>p e. fle p (fmul e alpha)) pvals_sorted (ecdf pvals_sorted)"

definition step_up :: "bool list \<Rightarrow> bool list" where
  "step_up reject =
     (if True \<in> set reject
      then (let rejectmax = Max (set (nonzero reject))
            in replicate (min rejectmax (length reject)) True @ drop rejectmax reject)
      else reject)"

definition pvals_corrected_raw :: "float64 list \<Rightarrow> float64 list" where
  "pvals_corrected_raw pvals_sorted = map2 fdiv pvals_sorted (ecdf pvals_sorted)"

definition clamp_one :: "float64 list \<Rightarrow> float64 list" where
  "clamp_one v = map (\<lambda>x. if flt (Fin 1) x then Fin 1 else x) v"

definition fdr_body :: "nat list \<Rightarrow> float64 list \<Rightarrow> float64 \<Rightarrow> bool list \<times> float64 list" where
  "fdr_body pvals_sortind pvals alpha =
     (let pvals_sorted = take_ind pvals pvals_sortind;
          reject = step_up (provisional pvals_sorted alpha);
          pvals_corrected =
            clamp_one (rev (minimum_accumulate (rev (pvals_corrected_raw pvals_sorted))));
          pvals_corrected_' = put_ind (Fin 0) pvals_sortind pvals_corrected;
          reject_' = put_ind False pvals_sortind reject
      in (reject_', pvals_corrected_'))"

definition fdrcorrection :: "float64 list \<Rightarrow> float64 \<Rightarrow> bool list \<times> float64 list" where
  "fdrcorrection pvals alpha = fdr_body (argsort pvals) pvals alpha"

subsection \<open>\<^verbatim>\<open>multiple_testing_correction\<close>\<close>

text \<open>
  \<^verbatim>\<open>q\<close> and \<^verbatim>\<open>rej\<close> both start as copies of the \<^verbatim>\<open>float64\<close> input array, so
  \<^verbatim>\<open>rej\<close> is an array of floats: the booleans written into it are cast.
\<close>

definition multiple_testing_correction ::
  "float64 list \<Rightarrow> float64 \<Rightarrow> string \<Rightarrow> error + (float64 list \<times> float64 list)" where
  "multiple_testing_correction ps alpha method =
     (let q = ps;
          rej = ps;
          msk = map (\<lambda>x. \<not> isnan x) ps;
          p = compress ps msk
      in if method = ''bonferroni'' then
           (case set_mask q msk (map (\<lambda>x. fmul x (Fin (real (length p)))) p) of
              Inl e \<Rightarrow> Inl e
            | Inr q1 \<Rightarrow>
                (case set_mask rej msk (map (\<lambda>x. bool_to_float (flt x alpha)) (compress q1 msk)) of
                   Inl e \<Rightarrow> Inl e
                 | Inr rej1 \<Rightarrow> Inr (q1, rej1)))
         else if method = ''benjamini-hochberg'' then
           (case fdrcorrection p alpha of
              (rej', q') \<Rightarrow>
                (case set_mask rej msk (map bool_to_float rej') of
                   Inl e \<Rightarrow> Inl e
                 | Inr rej1 \<Rightarrow>
                     (case set_mask q msk q' of
                        Inl e \<Rightarrow> Inl e
                      | Inr q1 \<Rightarrow> Inr (q1, rej1))))
         else Inl (ValueError method))"

subsection \<open>\<^verbatim>\<open>scipy.stats.hypergeom.sf\<close>\<close>

text \<open>
  \<^verbatim>\<open>hypergeom.sf(k, M, n, N)\<close> is SciPy's, not this module's.  It is given here as
  SciPy documents and computes it, with exact probabilities: with \<open>M\<close> the population,
  \<open>n\<close> the number of marked objects and \<open>N\<close> the number drawn, the answer is NaN when
  the parameters are not those of a distribution (SciPy's argument check
  \<open>M > 0\<close>, \<open>n \<ge> 0\<close>, \<open>N \<ge> 0\<close>, \<open>n \<le> M\<close>, \<open>N \<le> M\<close>), 1 when \<open>k\<close> is below the support
  \<open>max(N - (M - n), 0) .. min(n, N)\<close>, 0 when \<open>k\<close> is at or above its upper end, and
  otherwise the sum of the probability mass function over \<open>k + 1, \<dots>, N\<close>, clipped to
  \<open>[0, 1]\<close>.  The arguments are Python integers, which SciPy converts to machine
  numbers; what the conversion does to an integer beyond the machine range is not part
  of the model, and the statement below on the p-value of a category without overlap is
  made for background sizes of absolute value below \<open>2\<^sup>3\<^sup>1\<close>.
\<close>

definition hypergeom_pmf :: "nat \<Rightarrow> nat \<Rightarrow> nat \<Rightarrow> nat \<Rightarrow> real" where
  "hypergeom_pmf j M n N = real (n choose j) * real ((M - n) choose (N - j)) / real (M choose N)"

definition hypergeom_sf :: "int \<Rightarrow> int \<Rightarrow> int \<Rightarrow> int \<Rightarrow> float64" where
  "hypergeom_sf k M n N =
     (if 0 < M \<and> 0 \<le> n \<and> 0 \<le> N \<and> n \<le> M \<and> N \<le> M then
        (if k < max (N - (M - n)) 0 then Fin 1
         else if min n N \<le> k then Fin 0
         else Fin (max 0 (min 1
                (sum_list (map (\<lambda>j. hypergeom_pmf j (nat M) (nat n) (nat N))
                   [nat (k + 1)..<nat N + 1])))))
      else NaN)"

subsection \<open>\<^verbatim>\<open>calc_pvalues\<close>\<close>

text \<open>
  \<^verbatim>\<open>query\<close> is any collection with a length that \<^verbatim>\<open>set()\<close> accepts: a list of
  identifiers, possibly with repetitions (a Python set is a list without).
  \<^verbatim>\<open>gene_sets\<close> is a dict from category names to lists of identifiers: an association
  list in the dict's iteration order, whose keys are distinct.  \<^verbatim>\<open>background\<close> is
  \<^verbatim>\<open>None\<close> or the number of background genes.
\<close>

type_synonym val = "float64 \<times> nat \<times> nat \<times> string set"

text \<open>The body of the loop: the tuple appended for the category \<open>category\<close>.\<close>

definition score_category :: "int \<Rightarrow> int \<Rightarrow> string set \<Rightarrow> string list \<Rightarrow> val" where
  "score_category k bg_num query category =
     (let m = length category;
          hits = query \<inter> set category;
          x = card hits
      in (hypergeom_sf (int x - 1) bg_num (int m) k, x, m, hits))"

text \<open>
  The loop over \<^verbatim>\<open>subsets\<close>.  \<^verbatim>\<open>gene_sets.get(s)\<close> is \<^verbatim>\<open>None\<close> for a missing key, and
  \<^verbatim>\<open>len(None)\<close> raises \<^verbatim>\<open>TypeError\<close>.
\<close>

fun score_loop ::
  "int \<Rightarrow> int \<Rightarrow> string set \<Rightarrow> (string \<times> string list) list \<Rightarrow> string list \<Rightarrow> val list
     \<Rightarrow> error + val list" where
  "score_loop k bg_num query gene_sets [] vals = Inr vals"
| "score_loop k bg_num query gene_sets (s # subsets) vals =
     (case map_of gene_sets s of
        None \<Rightarrow> Inl (TypeError ''object of type NoneType has no len()'')
      | Some category \<Rightarrow>
          score_loop k bg_num query gene_sets subsets
            (vals @ [score_category k bg_num query category]))"

text \<open>
  \<^verbatim>\<open>zip(*vals)\<close> turns the list of 4-tuples into its four columns; of an empty list
  it is the empty sequence, with no column at all.
\<close>

datatype zipped =
  No_columns
| Columns "float64 list" "nat list" "nat list" "string set list"

definition zip_star :: "val list \<Rightarrow> zipped" where
  "zip_star vals =
     (if vals = [] then No_columns
      else Columns (map fst vals) (map (fst \<circ> snd) vals) (map (fst \<circ> snd \<circ> snd) vals)
             (map (snd \<circ> snd \<circ> snd) vals))"

definition calc_pvalues ::
  "string list \<Rightarrow> (string \<times> string list) list \<Rightarrow> int option \<Rightarrow> error + zipped" where
  "calc_pvalues query gene_sets background =
     (let k = int (length query);
          bg_num = (case background of None \<Rightarrow> 20000 | Some b \<Rightarrow> b);
          query' = set query;
          subsets = sort (map fst gene_sets)
      in case score_loop k bg_num query' gene_sets subsets [] of
           Inl e \<Rightarrow> Inl e
         | Inr vals \<Rightarrow> Inr (zip_star vals))"

section \<open>Lemmas on the array operations\<close>

subsection \<open>Masked reads and writes, lengths\<close>

lemma length_put_mask: "length (put_mask xs bs vs) = length xs"
  by (induction xs bs vs rule: put_mask.induct) (auto split: list.splits)

lemma compress_map: "compress xs (map P xs) = filter P xs"
  by (induction xs) (auto simp: compress_def)

lemma count_mask_map: "length (filter id (map P xs)) = length (filter P xs)"
  by (induction xs) auto

lemma put_mask_map:
  "put_mask xs (map P xs) (map f (filter P xs)) = map (\<lambda>x. if P x then f x else x) xs"
  by (induction xs) auto

lemma put_mask_keeps:
  "i < length xs \<Longrightarrow> \<not> P (xs ! i) \<Longrightarrow> put_mask xs (map P xs) vs ! i = xs ! i"
proof (induction xs arbitrary: i vs)
  case Nil
  then show ?case by simp
next
  case (Cons x xs)
  show ?case
  proof (cases i)
    case 0
    with Cons.prems show ?thesis by simp
  next
    case (Suc j)
    with Cons show ?thesis by (auto split: list.splits)
  qed
qed

lemma compress_put_mask:
  "length vs = length (filter P xs) \<Longrightarrow> compress (put_mask xs (map P xs) vs) (map P xs) = vs"
proof (induction xs arbitrary: vs)
  case Nil
  then show ?case by (simp add: compress_def)
next
  case (Cons x xs)
  then show ?case by (cases vs) (auto simp: compress_def)
qed

lemma length_put_ind: "length (put_ind d ind v) = length v"
proof -
  have "length (foldl (\<lambda>out (i, x). out[i := x]) out ps) = length out" for out :: "'a list" and ps
    by (induction ps arbitrary: out) auto
  then show ?thesis by (simp add: put_ind_def)
qed

lemma length_argsort: "length (argsort a) = length a"
  by (simp add: argsort_def)

lemma length_ecdf: "length (ecdf x) = length x"
  by (simp add: ecdf_def Let_def del: upt_Suc)

lemma nth_ecdf: "k < length x \<Longrightarrow> ecdf x ! k = Fin (real (Suc k) / real (length x))"
  by (auto simp add: ecdf_def Let_def nth_append simp del: upt_Suc)

lemma length_minimum_accumulate: "length (minimum_accumulate xs) = length xs"
proof -
  have "length (accumulate_from m ys) = length ys" for m ys
    by (induction ys arbitrary: m) auto
  then show ?thesis by (cases xs) auto
qed

lemma length_step_up: "length (step_up r) = length r"
  by (auto simp: step_up_def Let_def min_def)

lemma length_fdr_body:
  "length (fst (fdr_body ind pvals alpha)) = length ind"
  "length (snd (fdr_body ind pvals alpha)) = length ind"
  by (simp_all add: fdr_body_def Let_def length_put_ind length_step_up provisional_def take_ind_def length_ecdf
      clamp_one_def length_minimum_accumulate pvals_corrected_raw_def)

lemma length_fdrcorrection:
  "length (fst (fdrcorrection pvals alpha)) = length pvals"
  "length (snd (fdrcorrection pvals alpha)) = length pvals"
  by (simp_all add: fdrcorrection_def length_fdr_body length_argsort)

lemma compress_map_if:
  "compress (map (\<lambda>x. if P x then f x else x) xs) (map P xs) = map f (filter P xs)"
  by (induction xs) (auto simp: compress_def)

lemma set_mask_map:
  "set_mask xs (map P xs) (map f (filter P xs)) = Inr (map (\<lambda>x. if P x then f x else x) xs)"
  by (simp add: set_mask_def count_mask_map put_mask_map)

lemma mtc_bonferroni:
  "multiple_testing_correction ps alpha ''bonferroni'' =
     Inr (map (\<lambda>x. if \<not> isnan x then fmul x (Fin (real (length (filter (\<lambda>x. \<not> isnan x) ps)))) else x) ps,
          map (\<lambda>x. if \<not> isnan x
                   then bool_to_float (flt (fmul x (Fin (real (length (filter (\<lambda>x. \<not> isnan x) ps))))) alpha)
                   else x) ps)"
proof -
  let ?P = "\<lambda>x. \<not> isnan x"
  let ?f = "\<lambda>x. fmul x (Fin (real (length (filter ?P ps))))"
  let ?g = "\<lambda>x. bool_to_float (flt x alpha)"
  have q1: "set_mask ps (map ?P ps) (map ?f (filter ?P ps)) = Inr (map (\<lambda>x. if ?P x then ?f x else x) ps)"
    by (rule set_mask_map)
  have c: "compress (map (\<lambda>x. if ?P x then ?f x else x) ps) (map ?P ps) = map ?f (filter ?P ps)"
    by (rule compress_map_if)
  have r: "set_mask ps (map ?P ps) (map ?g (map ?f (filter ?P ps)))
             = Inr (map (\<lambda>x. if ?P x then ?g (?f x) else x) ps)"
    using set_mask_map [of ps ?P "\<lambda>x. ?g (?f x)"] by (simp add: comp_def)
  show ?thesis
    unfolding multiple_testing_correction_def Let_def compress_map
    by (simp only: q1 c r sum.case) simp
qed

lemma mtc_bh:
  "multiple_testing_correction ps alpha ''benjamini-hochberg'' =
     Inr (put_mask ps (map (\<lambda>x. \<not> isnan x) ps)
            (snd (fdrcorrection (filter (\<lambda>x. \<not> isnan x) ps) alpha)),
          put_mask ps (map (\<lambda>x. \<not> isnan x) ps)
            (map bool_to_float (fst (fdrcorrection (filter (\<lambda>x. \<not> isnan x) ps) alpha))))"
proof -
  let ?P = "\<lambda>x. \<not> isnan x"
  obtain rej' q' where f: "fdrcorrection (filter ?P ps) alpha = (rej', q')"
    by (cases "fdrcorrection (filter ?P ps) alpha")
  have l: "length rej' = length (filter ?P ps)" "length q' = length (filter ?P ps)"
    using length_fdrcorrection [of "filter ?P ps" alpha] by (simp_all add: f)
  show ?thesis
    by (simp add: multiple_testing_correction_def Let_def compress_map f set_mask_def
        count_mask_map l)
qed

lemma filter_not_nan_empty: "\<forall>x \<in> set ps. isnan x \<Longrightarrow> filter (\<lambda>x. \<not> isnan x) ps = []"
  by (induction ps) auto

lemma fdrcorrection_Nil: "fdrcorrection [] alpha = ([], [])"
  by (simp add: fdrcorrection_def fdr_body_def argsort_def take_ind_def provisional_def step_up_def
      ecdf_def pvals_corrected_raw_def clamp_one_def put_ind_def)

lemma put_mask_Nil_values: "put_mask xs bs [] = xs"
  by (induction xs bs "[] :: 'a list" rule: put_mask.induct) auto

lemma put_mask_hits:
  "length vs = length (filter P xs) \<Longrightarrow> i < length xs \<Longrightarrow> P (xs ! i)
     \<Longrightarrow> put_mask xs (map P xs) vs ! i = vs ! length (filter P (take i xs))"
proof (induction xs arbitrary: i vs)
  case Nil
  then show ?case by simp
next
  case (Cons x xs)
  show ?case
  proof (cases i)
    case 0
    with Cons.prems show ?thesis by (cases vs) auto
  next
    case (Suc j)
    with Cons show ?thesis by (cases vs) auto
  qed
qed

lemma rank_in_subset:
  "i < length xs \<Longrightarrow> P (xs ! i) \<Longrightarrow> length (filter P (take i xs)) < length (filter P xs)"
proof -
  assume i: "i < length xs" and p: "P (xs ! i)"
  have "xs = take i xs @ xs ! i # drop (Suc i) xs"
    using i by (simp add: id_take_nth_drop)
  then have "filter P xs = filter P (take i xs) @ xs ! i # filter P (drop (Suc i) xs)"
    using p by (metis filter.simps(2) filter_append)
  then show ?thesis by simp
qed

lemmas mtc_eval = multiple_testing_correction_def compress_def set_mask_def bool_to_float_def
   fdrcorrection_def fdr_body_def argsort_def take_ind_def provisional_def step_up_def ecdf_def
   pvals_corrected_raw_def clamp_one_def put_ind_def nonzero_def sort_key_of_def Max.set_eq_fold

subsection \<open>The sort indices and the writes through them\<close>

lemma mset_argsort: "mset (argsort a) = mset [0..<length a]"
  by (simp add: argsort_def)

lemma sorted_argsort: "sorted (map (\<lambda>i. sort_key_of (a ! i)) (argsort a))"
  by (simp add: argsort_def)

lemma perm_indices:
  assumes "mset ind = mset [0..<n]"
  shows "distinct ind" and "set ind = {0..<n}" and "length ind = n"
proof -
  show "distinct ind"
    using assms by (metis distinct_upt mset_eq_imp_distinct_iff)
  show "set ind = {0..<n}"
    using assms by (metis mset_eq_setD set_upt)
  show "length ind = n"
    using assms by (metis length_upt mset_eq_length minus_nat.diff_0)
qed

lemma foldl_update_other:
  "j \<notin> set (map fst ps) \<Longrightarrow> foldl (\<lambda>out (i, x). out[i := x]) out ps ! j = out ! j"
  by (induction ps arbitrary: out) auto

lemma foldl_update_hit:
  "distinct (map fst ps) \<Longrightarrow> (i, x) \<in> set ps \<Longrightarrow> i < length out
     \<Longrightarrow> foldl (\<lambda>out (i, x). out[i := x]) out ps ! i = x"
proof (induction ps arbitrary: out)
  case Nil
  then show ?case by simp
next
  case (Cons a ps)
  obtain i' x' where a: "a = (i', x')" by (cases a)
  show ?case
  proof (cases "(i, x) = a")
    case True
    then have "i \<notin> set (map fst ps)"
      using Cons.prems(1) by (metis distinct.simps(2) fst_conv list.simps(9))
    then have "foldl (\<lambda>out (i, x). out[i := x]) (out[i := x]) ps ! i = out[i := x] ! i"
      by (rule foldl_update_other)
    then show ?thesis using True [symmetric] Cons.prems(3) by simp
  next
    case False
    then show ?thesis using Cons a by auto
  qed
qed

lemma nth_put_ind:
  assumes "mset ind = mset [0..<length v]" and "k < length v"
  shows "put_ind d ind v ! (ind ! k) = v ! k"
proof -
  note p = perm_indices [OF assms(1)]
  have "distinct (map fst (zip ind v))"
    using p by simp
  moreover have "(ind ! k, v ! k) \<in> set (zip ind v)"
    using assms(2) p(3) by (auto simp: in_set_zip)
  moreover have "ind ! k < length (replicate (length v) d)"
    using p assms(2) by (metis atLeastLessThan_iff length_replicate nth_mem)
  ultimately show ?thesis
    unfolding put_ind_def by (rule foldl_update_hit [of "zip ind v" "ind ! k" "v ! k"])
qed

lemma nth_provisional:
  "k < length s \<Longrightarrow> provisional s alpha ! k
     = fle (s ! k) (fmul (Fin (real (Suc k) / real (length s))) alpha)"
  by (simp add: provisional_def length_ecdf nth_ecdf)

lemma length_provisional: "length (provisional s alpha) = length s"
  by (simp add: provisional_def length_ecdf)

lemma set_nonzero: "set (nonzero r) = {i. i < length r \<and> r ! i}"
  by (auto simp: nonzero_def)

lemma nth_step_up:
  assumes "k < length r"
  shows "step_up r ! k = (\<exists>j. k \<le> j \<and> j < length r \<and> r ! j)"
proof (cases "True \<in> set r")
  case False
  then have "\<not> r ! j" if "j < length r" for j
    using that by (metis nth_mem)
  then show ?thesis using False assms by (auto simp: step_up_def)
next
  case True
  let ?m = "Max (set (nonzero r))"
  have ne: "set (nonzero r) \<noteq> {}"
    using True by (auto simp: set_nonzero in_set_conv_nth)
  have "?m \<in> set (nonzero r)"
    using ne by (intro Max_in) auto
  then have m: "?m < length r" "r ! ?m"
    by (auto simp: set_nonzero)
  have top: "j \<le> ?m" if "j < length r" "r ! j" for j
    using that by (intro Max_ge) (auto simp: set_nonzero)
  have s: "step_up r = replicate ?m True @ drop ?m r"
    using True m(1) by (simp add: step_up_def Let_def min_def)
  show ?thesis
  proof (cases "k < ?m")
    case True
    then show ?thesis using m by (auto simp: s nth_append intro!: exI[of _ ?m])
  next
    case False
    then have "step_up r ! k = r ! k"
      using assms m(1) by (simp add: s nth_append)
    moreover have "(\<exists>j. k \<le> j \<and> j < length r \<and> r ! j) \<longleftrightarrow> r ! k"
      using False top assms by (metis le_antisym not_less order_trans)
    ultimately show ?thesis by simp
  qed
qed

lemma fdr_body_reject:
  assumes "mset ind = mset [0..<length pvals]" and "k < length pvals"
  shows "fst (fdr_body ind pvals alpha) ! (ind ! k)
           = (\<exists>j. k \<le> j \<and> j < length pvals \<and>
                  fle (take_ind pvals ind ! j) (fmul (Fin (real (Suc j) / real (length pvals))) alpha))"
proof -
  let ?s = "take_ind pvals ind"
  have n: "length ?s = length pvals"
    using perm_indices(3) [OF assms(1)] by (simp add: take_ind_def)
  have "fst (fdr_body ind pvals alpha) ! (ind ! k) = step_up (provisional ?s alpha) ! k"
    using assms n by (simp add: fdr_body_def Let_def nth_put_ind length_step_up length_provisional)
  also have "\<dots> = (\<exists>j. k \<le> j \<and> j < length pvals \<and> provisional ?s alpha ! j)"
    using assms(2) n by (simp add: nth_step_up length_provisional)
  also have "\<dots> = (\<exists>j. k \<le> j \<and> j < length pvals \<and>
                  fle (?s ! j) (fmul (Fin (real (Suc j) / real (length pvals))) alpha))"
    using n by (metis nth_provisional)
  finally show ?thesis .
qed

lemma mtc_bh_subset:
  assumes "multiple_testing_correction ps alpha ''benjamini-hochberg'' = Inr (q, rej)"
  shows "compress q (map (\<lambda>x. \<not> isnan x) ps)
           = snd (fdrcorrection (compress ps (map (\<lambda>x. \<not> isnan x) ps)) alpha)"
    and "compress rej (map (\<lambda>x. \<not> isnan x) ps)
           = map bool_to_float (fst (fdrcorrection (compress ps (map (\<lambda>x. \<not> isnan x) ps)) alpha))"
  using assms by (auto simp: mtc_bh compress_map compress_put_mask length_fdrcorrection)

subsection \<open>The running minimum\<close>

lemma nth_accumulate_from:
  "k < length rs \<Longrightarrow>
     accumulate_from (Fin m) (map Fin rs) ! k = Fin (Min (insert m (set (take (Suc k) rs))))"
proof (induction rs arbitrary: m k)
  case Nil
  then show ?case by simp
next
  case (Cons r rs)
  show ?case
  proof (cases k)
    case 0
    then show ?thesis by (simp add: min.commute)
  next
    case (Suc j)
    then have j: "j < length rs" using Cons.prems by simp
    have "set (take (Suc j) rs) \<noteq> {}"
      using j by (cases rs) auto
    then have "Min (insert (min m r) (set (take (Suc j) rs)))
            = Min (insert m (insert r (set (take (Suc j) rs))))"
      by (simp add: min.assoc)
    then show ?thesis
      using Suc Cons.IH [OF j, of "min m r"] by simp
  qed
qed

lemma nth_minimum_accumulate:
  "k < length rs \<Longrightarrow> minimum_accumulate (map Fin rs) ! k = Fin (Min (set (take (Suc k) rs)))"
proof (cases rs)
  case Nil
  then show "k < length rs \<Longrightarrow> ?thesis" by simp
next
  case (Cons r rs')
  assume "k < length rs"
  then show ?thesis
    using Cons nth_accumulate_from [of "k - 1" rs' r] by (cases k) auto
qed

lemma nth_suffix_minimum:
  assumes "k < length rs"
  shows "rev (minimum_accumulate (rev (map Fin rs))) ! k = Fin (Min (set (drop k rs)))"
proof -
  let ?n = "length rs"
  have "rev (minimum_accumulate (rev (map Fin rs))) ! k
          = minimum_accumulate (map Fin (rev rs)) ! (?n - Suc k)"
    using assms by (simp add: rev_nth length_minimum_accumulate rev_map)
  also have "\<dots> = Fin (Min (set (take (Suc (?n - Suc k)) (rev rs))))"
    using assms by (intro nth_minimum_accumulate) simp
  also have "take (Suc (?n - Suc k)) (rev rs) = rev (drop k rs)"
    using assms by (simp add: take_rev Suc_diff_Suc)
  finally show ?thesis by simp
qed

lemma no_nan_map_Fin: "\<forall>x \<in> set p. \<not> isnan x \<Longrightarrow> \<exists>rs. p = map Fin rs"
proof (induction p)
  case Nil
  then show ?case by simp
next
  case (Cons x p)
  then obtain rs where "p = map Fin rs" by auto
  moreover obtain r where "x = Fin r" using Cons.prems by (cases x) auto
  ultimately have "x # p = map Fin (r # rs)" by simp
  then show ?case by (rule exI)
qed

lemma take_ind_map_Fin:
  assumes "mset ind = mset [0..<length rs]"
  shows "take_ind (map Fin rs) ind = map Fin (map (\<lambda>i. rs ! i) ind)"
  using perm_indices(2) [OF assms] by (auto simp: take_ind_def)

lemma raw_map_Fin:
  "pvals_corrected_raw (map Fin s)
     = map Fin (map (\<lambda>j. s ! j / (real (Suc j) / real (length s))) [0..<length s])"
proof (rule nth_equalityI)
  show "length (pvals_corrected_raw (map Fin s))
          = length (map Fin (map (\<lambda>j. s ! j / (real (Suc j) / real (length s))) [0..<length s]))"
    by (simp add: pvals_corrected_raw_def length_ecdf)
next
  fix j assume "j < length (pvals_corrected_raw (map Fin s))"
  then have j: "j < length s"
    by (simp add: pvals_corrected_raw_def length_ecdf)
  then have "real (Suc j) / real (length s) \<noteq> 0" by auto
  then show "pvals_corrected_raw (map Fin s) ! j
               = map Fin (map (\<lambda>j. s ! j / (real (Suc j) / real (length s))) [0..<length s]) ! j"
    using j by (simp add: pvals_corrected_raw_def length_ecdf nth_ecdf)
qed

lemma raw_take_ind:
  assumes "mset ind = mset [0..<length rs]"
  shows "pvals_corrected_raw (take_ind (map Fin rs) ind)
           = map Fin (map (\<lambda>j. rs ! (ind ! j) / (real (Suc j) / real (length rs))) [0..<length rs])"
proof -
  let ?s = "map (\<lambda>i. rs ! i) ind"
  have n: "length ind = length rs"
    using perm_indices(3) [OF assms] .
  have "pvals_corrected_raw (take_ind (map Fin rs) ind)
          = map Fin (map (\<lambda>j. ?s ! j / (real (Suc j) / real (length ?s))) [0..<length ?s])"
    by (simp only: take_ind_map_Fin [OF assms] raw_map_Fin)
  also have "map (\<lambda>j. ?s ! j / (real (Suc j) / real (length ?s))) [0..<length ?s]
               = map (\<lambda>j. rs ! (ind ! j) / (real (Suc j) / real (length rs))) [0..<length rs]"
    using n by simp
  finally show ?thesis .
qed

lemma nth_corrected:
  assumes "k < length raws"
  shows "clamp_one (rev (minimum_accumulate (rev (map Fin raws)))) ! k
           = Fin (min 1 (Min (set (drop k raws))))"
proof -
  define m where "m = Min (set (drop k raws))"
  have "rev (minimum_accumulate (rev (map Fin raws))) ! k = Fin m"
    using assms by (simp add: nth_suffix_minimum m_def)
  then have "clamp_one (rev (minimum_accumulate (rev (map Fin raws)))) ! k
               = (if flt (Fin 1) (Fin m) then Fin 1 else Fin m)"
    using assms by (simp add: clamp_one_def length_minimum_accumulate)
  also have "\<dots> = Fin (min 1 m)"
    by (simp add: min_def)
  finally show ?thesis by (simp add: m_def)
qed

lemma fdr_body_q:
  assumes "mset ind = mset [0..<length rs]" and "k < length rs"
  shows "snd (fdr_body ind (map Fin rs) alpha) ! (ind ! k)
           = Fin (min 1 (Min (set (drop k
               (map (\<lambda>j. rs ! (ind ! j) / (real (Suc j) / real (length rs))) [0..<length rs])))))"
proof -
  let ?s = "map (\<lambda>i. rs ! i) ind"
  let ?raws = "map (\<lambda>j. ?s ! j / (real (Suc j) / real (length ?s))) [0..<length ?s]"
  let ?c = "clamp_one (rev (minimum_accumulate (rev (map Fin ?raws))))"
  have n: "length ind = length rs"
    using perm_indices(3) [OF assms(1)] .
  have lc: "length ?c = length rs"
    by (simp add: clamp_one_def length_minimum_accumulate n)
  have t: "take_ind (map Fin rs) ind = map Fin ?s"
    using assms(1) by (rule take_ind_map_Fin)
  have r: "pvals_corrected_raw (map Fin ?s) = map Fin ?raws"
    by (rule raw_map_Fin)
  have "snd (fdr_body ind (map Fin rs) alpha) = put_ind (Fin 0) ind ?c"
    by (simp only: fdr_body_def Let_def t r snd_conv)
  then have "snd (fdr_body ind (map Fin rs) alpha) ! (ind ! k) = ?c ! k"
    using assms lc by (simp add: nth_put_ind)
  also have "\<dots> = Fin (min 1 (Min (set (drop k ?raws))))"
    using assms(2) n by (intro nth_corrected) simp
  also have "?raws = map (\<lambda>j. rs ! (ind ! j) / (real (Suc j) / real (length rs))) [0..<length rs]"
    using n by simp
  finally show ?thesis .
qed

lemma suffix_Min_attained:
  fixes raws :: "real list"
  assumes "k < length raws"
  shows "\<exists>j. k \<le> j \<and> j < length raws \<and> Min (set (drop k raws)) = raws ! j"
proof -
  have "set (drop k raws) \<noteq> {}" using assms by simp
  then have "Min (set (drop k raws)) \<in> set (drop k raws)"
    by (intro Min_in) auto
  then obtain i where "i < length (drop k raws)" "drop k raws ! i = Min (set (drop k raws))"
    by (auto simp: in_set_conv_nth)
  then have "k \<le> k + i \<and> k + i < length raws \<and> Min (set (drop k raws)) = raws ! (k + i)"
    by auto
  then show ?thesis by blast
qed

lemma suffix_Min_le:
  fixes raws :: "real list"
  assumes "k \<le> j" and "j < length raws"
  shows "Min (set (drop k raws)) \<le> raws ! j"
proof -
  have "drop k raws ! (j - k) = raws ! j" and "j - k < length (drop k raws)"
    using assms by simp_all
  then have "raws ! j \<in> set (drop k raws)"
    by (metis nth_mem)
  then show ?thesis by (intro Min_le) auto
qed

lemma suffix_Min_mono:
  fixes raws :: "real list"
  assumes "k \<le> k'" and "k' < length raws"
  shows "Min (set (drop k raws)) \<le> Min (set (drop k' raws))"
proof -
  have "set (drop k' raws) \<subseteq> set (drop k raws)"
    using assms(1) by (rule set_drop_subset_set_drop)
  moreover have "set (drop k' raws) \<noteq> {}" using assms(2) by simp
  ultimately show ?thesis by (intro Min_antimono) auto
qed

lemma put_mask_value_in_subset:
  assumes "length vs = length (filter P xs)" and "i < length xs" and "P (xs ! i)"
  shows "put_mask xs (map P xs) vs ! i \<in> set vs"
  using put_mask_hits [OF assms] rank_in_subset [of i xs P] assms by simp

subsection \<open>Equal entries\<close>

lemma sorted_key_Fin: "sorted (map sort_key_of (map Fin xs)) = sorted xs"
  by (induction xs) (auto simp: sort_key_of_def)

lemma tied_block:
  fixes s :: "real list"
  assumes "sorted s" and "k \<le> j" and "j \<le> k'" and "k' < length s" and "s ! k = s ! k'"
  shows "s ! j = s ! k'"
proof -
  have "s ! k \<le> s ! j"
    using assms(1-4) by (intro sorted_nth_mono) auto
  moreover have "s ! j \<le> s ! k'"
    using assms(1-4) by (intro sorted_nth_mono) auto
  ultimately show ?thesis using assms(5) by simp
qed

lemma tied_suffix_Min:
  fixes s :: "real list"
  assumes "sorted s" and "k \<le> k'" and "k' < length s" and "s ! k = s ! k'" and "0 \<le> s ! k"
    and "raws = map (\<lambda>j. s ! j / (real (Suc j) / real (length s))) [0..<length s]"
  shows "Min (set (drop k raws)) = Min (set (drop k' raws))"
proof (rule antisym)
  have lr: "length raws = length s"
    by (simp add: assms(6))
  show "Min (set (drop k raws)) \<le> Min (set (drop k' raws))"
    using assms(2,3) lr by (intro suffix_Min_mono) simp_all
  obtain j where j: "k \<le> j" "j < length s" "Min (set (drop k raws)) = raws ! j"
    using suffix_Min_attained [of k raws] assms(2,3) lr by auto
  show "Min (set (drop k' raws)) \<le> Min (set (drop k raws))"
  proof (cases "k' \<le> j")
    case True
    then show ?thesis
      using suffix_Min_le [of k' j raws] j lr by simp
  next
    case False
    then have jk: "j \<le> k'" by simp
    have v: "s ! j = s ! k'"
      using tied_block [OF assms(1) j(1) jk assms(3,4)] .
    have n: "0 < real (length s)"
      using assms(3) by auto
    have "s ! k' / (real (Suc k') / real (length s)) \<le> s ! k' / (real (Suc j) / real (length s))"
    proof (rule divide_left_mono)
      show "real (Suc j) / real (length s) \<le> real (Suc k') / real (length s)"
        using jk n by (simp add: divide_right_mono)
      show "0 \<le> s ! k'"
        using assms(4,5) by simp
      show "0 < real (Suc k') / real (length s) * (real (Suc j) / real (length s))"
        using n by simp
    qed
    then have "raws ! k' \<le> raws ! j"
      using j(2) assms(3) v by (simp add: assms(6))
    moreover have "Min (set (drop k' raws)) \<le> raws ! k'"
      using suffix_Min_le [of k' k' raws] assms(3) lr by simp
    ultimately show ?thesis
      using j(3) by simp
  qed
qed

lemma tied_reject:
  fixes s :: "real list"
  assumes "sorted s" and "k \<le> k'" and "k' < length s" and "s ! k = s ! k'" and "0 \<le> s ! k"
  shows "(\<exists>j. k \<le> j \<and> j < length s \<and>
              fle (Fin (s ! j)) (fmul (Fin (real (Suc j) / real (length s))) alpha))
         \<longleftrightarrow>
         (\<exists>j. k' \<le> j \<and> j < length s \<and>
              fle (Fin (s ! j)) (fmul (Fin (real (Suc j) / real (length s))) alpha))"
    (is "?L \<longleftrightarrow> ?R")
proof
  assume ?R
  then show ?L using assms(2) by (meson order_trans)
next
  assume ?L
  then obtain j where j: "k \<le> j" "j < length s"
    "fle (Fin (s ! j)) (fmul (Fin (real (Suc j) / real (length s))) alpha)"
    by blast
  then obtain a where a: "alpha = Fin a"
    by (cases alpha) auto
  show ?R
  proof (cases "k' \<le> j")
    case True
    then show ?thesis using j by blast
  next
    case False
    then have jk: "j \<le> k'" by simp
    have v: "s ! j = s ! k'"
      using tied_block [OF assms(1) j(1) jk assms(3,4)] .
    have n: "0 < real (length s)"
      using assms(3) by auto
    have le: "s ! k' \<le> real (Suc j) / real (length s) * a"
      using j(3) by (simp add: a v)
    have "0 \<le> s ! k'"
      using assms(4,5) by simp
    then have "0 \<le> real (Suc j) / real (length s) * a"
      using le by simp
    then have a0: "0 \<le> a"
      using n by (simp add: zero_le_mult_iff zero_le_divide_iff)
    have "real (Suc j) / real (length s) * a \<le> real (Suc k') / real (length s) * a"
      using jk n a0 by (intro mult_right_mono divide_right_mono) simp_all
    then have "fle (Fin (s ! k')) (fmul (Fin (real (Suc k') / real (length s))) alpha)"
      using le by (simp add: a)
    then show ?thesis using assms(3) by blast
  qed
qed

lemma sorted_view_unique:
  fixes rs :: "real list"
  assumes "mset ind = mset [0..<length rs']" and "sorted (map (\<lambda>i. rs' ! i) ind)"
    and "mset rs' = mset rs"
  shows "map (\<lambda>i. rs' ! i) ind = sort rs"
proof -
  have "mset (map (\<lambda>i. rs' ! i) ind) = mset (map (\<lambda>i. rs' ! i) [0..<length rs'])"
    using assms(1) by simp
  also have "\<dots> = mset rs"
    using assms(3) by (simp only: map_nth)
  finally show ?thesis
    using assms(2) by (metis properties_for_sort)
qed

lemma fdr_body_by_value:
  assumes nonneg: "\<forall>r \<in> set rs. 0 \<le> r"
  shows "\<exists>g h. \<forall>rs' ind. mset rs' = mset rs \<and> mset ind = mset [0..<length rs'] \<and>
                  sorted (map (\<lambda>i. rs' ! i) ind)
               \<longrightarrow> fdr_body ind (map Fin rs') alpha = (map h rs', map g rs')"
proof -
  define s where "s = sort rs"
  define n where "n = length rs"
  define raws where "raws = map (\<lambda>j. s ! j / (real (Suc j) / real (length s))) [0..<length s]"
  define T where "T k \<longleftrightarrow> (\<exists>j. k \<le> j \<and> j < length s \<and>
                    fle (Fin (s ! j)) (fmul (Fin (real (Suc j) / real (length s))) alpha))" for k
  define \<kappa> where "\<kappa> v = (SOME k. k < n \<and> s ! k = v)" for v
  define g where "g v = Fin (min 1 (Min (set (drop (\<kappa> v) raws))))" for v
  define h where "h v = T (\<kappa> v)" for v
  have ls: "length s = n" by (simp add: s_def n_def)
  have srt: "sorted s" by (simp add: s_def)
  have pos: "0 \<le> s ! k" if "k < n" for k
    using nonneg that ls by (metis nth_mem s_def set_sort)
  have \<kappa>: "\<kappa> (s ! k) < n \<and> s ! \<kappa> (s ! k) = s ! k" if "k < n" for k
    unfolding \<kappa>_def using that by (rule someI [where P="\<lambda>k'. k' < n \<and> s ! k' = s ! k", OF conjI]) simp
  have tie: "Min (set (drop k raws)) = Min (set (drop k' raws)) \<and> (T k \<longleftrightarrow> T k')"
    if "k < n" "k' < n" "s ! k = s ! k'" for k k'
  proof (cases "k \<le> k'")
    case True
    then show ?thesis
      unfolding T_def
      using tied_suffix_Min [OF srt True _ that(3) _ raws_def]
        tied_reject [OF srt True _ that(3), of alpha] that pos ls by simp
  next
    case False
    then have le: "k' \<le> k" by simp
    show ?thesis
      unfolding T_def
      using tied_suffix_Min [OF srt le _ that(3) [symmetric] _ raws_def]
        tied_reject [OF srt le _ that(3) [symmetric], of alpha] that pos ls by simp
  qed
  have main: "fdr_body ind (map Fin rs') alpha = (map h rs', map g rs')"
    if m: "mset rs' = mset rs" and perm: "mset ind = mset [0..<length rs']"
      and sv: "sorted (map (\<lambda>i. rs' ! i) ind)" for rs' ind
  proof -
    have ln: "length rs' = n"
      using m by (metis mset_eq_length n_def)
    note pi = perm_indices [OF perm]
    have view: "map (\<lambda>i. rs' ! i) ind = s"
      unfolding s_def using perm sv m by (rule sorted_view_unique)
    have at: "rs' ! (ind ! k) = s ! k" if "k < n" for k
      using that pi(3) ln view by (metis nth_map)
    have raws': "map (\<lambda>j. rs' ! (ind ! j) / (real (Suc j) / real (length rs'))) [0..<length rs'] = raws"
      using at ln ls by (simp add: raws_def)
    have q: "snd (fdr_body ind (map Fin rs') alpha) ! (ind ! k) = g (rs' ! (ind ! k))"
      if k: "k < n" for k
    proof -
      have k': "k < length rs'"
        using k ln by simp
      have "snd (fdr_body ind (map Fin rs') alpha) ! (ind ! k)
              = Fin (min 1 (Min (set (drop k raws))))"
        using fdr_body_q [OF perm k', of alpha] unfolding raws' .
      also have "Min (set (drop k raws)) = Min (set (drop (\<kappa> (s ! k)) raws))"
        using tie [of k "\<kappa> (s ! k)"] \<kappa> [OF k] k by simp
      finally show ?thesis by (simp add: g_def at [OF k])
    qed
    have r: "fst (fdr_body ind (map Fin rs') alpha) ! (ind ! k) = h (rs' ! (ind ! k))"
      if k: "k < n" for k
    proof -
      have "take_ind (map Fin rs') ind = map Fin s"
        using take_ind_map_Fin [OF perm] by (simp add: view)
      then have "fst (fdr_body ind (map Fin rs') alpha) ! (ind ! k) = T k"
        using fdr_body_reject [of ind "map Fin rs'" k alpha] perm k ln ls
        by (auto simp: T_def)
      also have "T k \<longleftrightarrow> T (\<kappa> (s ! k))"
        using tie [of k "\<kappa> (s ! k)"] \<kappa> [OF k] k by simp
      finally show ?thesis by (simp add: h_def at [OF k])
    qed
    have every: "\<exists>k < n. i = ind ! k" if "i < n" for i
      using that pi ln by (metis atLeastLessThan_iff in_set_conv_nth zero_le)
    have "fst (fdr_body ind (map Fin rs') alpha) = map h rs'"
    proof (rule nth_equalityI)
      show "length (fst (fdr_body ind (map Fin rs') alpha)) = length (map h rs')"
        using pi(3) by (simp add: length_fdr_body)
      fix i assume "i < length (fst (fdr_body ind (map Fin rs') alpha))"
      then have i: "i < n" using pi(3) ln by (simp add: length_fdr_body)
      then obtain k where "k < n" "i = ind ! k" using every by blast
      then show "fst (fdr_body ind (map Fin rs') alpha) ! i = map h rs' ! i"
        using r i ln by simp
    qed
    moreover have "snd (fdr_body ind (map Fin rs') alpha) = map g rs'"
    proof (rule nth_equalityI)
      show "length (snd (fdr_body ind (map Fin rs') alpha)) = length (map g rs')"
        using pi(3) by (simp add: length_fdr_body)
      fix i assume "i < length (snd (fdr_body ind (map Fin rs') alpha))"
      then have i: "i < n" using pi(3) ln by (simp add: length_fdr_body)
      then obtain k where "k < n" "i = ind ! k" using every by blast
      then show "snd (fdr_body ind (map Fin rs') alpha) ! i = map g rs' ! i"
        using q i ln by simp
    qed
    ultimately show ?thesis by (simp add: prod_eq_iff)
  qed
  show ?thesis
    using main by blast
qed

lemma mset_take_ind:
  assumes "mset ind = mset [0..<length xs]"
  shows "mset (take_ind xs ind) = mset xs"
proof -
  have "mset (take_ind xs ind) = mset (map (\<lambda>i. xs ! i) [0..<length xs])"
    using assms by (simp add: take_ind_def)
  then show ?thesis by (simp only: map_nth)
qed

lemma take_ind_map:
  assumes "mset ind = mset [0..<length xs]"
  shows "take_ind (map F xs) ind = map F (take_ind xs ind)"
  using perm_indices(2) [OF assms] by (auto simp: take_ind_def)

lemma sorted_argsort_Fin: "sorted (map (\<lambda>i. rs ! i) (argsort (map Fin rs)))"
proof -
  have "map (\<lambda>i. sort_key_of (map Fin rs ! i)) (argsort (map Fin rs))
          = map sort_key_of (map Fin (map (\<lambda>i. rs ! i) (argsort (map Fin rs))))"
    using perm_indices(2) [OF mset_argsort, of "map Fin rs"] by auto
  then show ?thesis
    using sorted_argsort [of "map Fin rs"] by (simp only: sorted_key_Fin)
qed

lemma fle_zero_Fin: "fle (Fin 0) x \<Longrightarrow> \<exists>v. x = Fin v \<and> 0 \<le> v"
  by (cases x) auto

lemma mtc_bh_by_value:
  assumes "\<forall>x \<in> set ps. isnan x \<or> fle (Fin 0) x"
  shows "\<exists>G H. \<forall>xs. mset xs = mset ps \<longrightarrow>
           multiple_testing_correction xs alpha ''benjamini-hochberg'' = Inr (map G xs, map H xs)"
proof -
  let ?P = "\<lambda>x. \<not> isnan x"
  define f where "f x = (case x of Fin r \<Rightarrow> r | NaN \<Rightarrow> 0)" for x
  define rs where "rs = map f (filter ?P ps)"
  have Ff: "Fin (f x) = x" if "\<not> isnan x" for x
    using that by (cases x) (auto simp: f_def)
  have "0 \<le> r" if r: "r \<in> set rs" for r
  proof -
    obtain x where "x \<in> set ps" "\<not> isnan x" "r = f x"
      using r by (auto simp: rs_def)
    moreover from this have "fle (Fin 0) x" using assms by auto
    ultimately show ?thesis by (auto simp: f_def dest: fle_zero_Fin)
  qed
  then obtain g h where gh:
    "\<And>rs' ind. mset rs' = mset rs \<Longrightarrow> mset ind = mset [0..<length rs'] \<Longrightarrow>
        sorted (map (\<lambda>i. rs' ! i) ind) \<Longrightarrow>
        fdr_body ind (map Fin rs') alpha = (map h rs', map g rs')"
    using fdr_body_by_value [of rs alpha] by blast
  define G where "G x = (if \<not> isnan x then g (f x) else x)" for x
  define H where "H x = (if \<not> isnan x then bool_to_float (h (f x)) else x)" for x
  have "multiple_testing_correction xs alpha ''benjamini-hochberg'' = Inr (map G xs, map H xs)"
    if m: "mset xs = mset ps" for xs
  proof -
    define rs' where "rs' = map f (filter ?P xs)"
    have "map (\<lambda>x. Fin (f x)) (filter ?P xs) = filter ?P xs"
      by (rule map_idI) (simp add: Ff)
    then have p: "filter ?P xs = map Fin rs'"
      by (simp add: rs'_def comp_def)
    have "mset rs' = mset rs"
      using m by (simp add: rs'_def rs_def mset_filter)
    then have "fdr_body (argsort (map Fin rs')) (map Fin rs') alpha = (map h rs', map g rs')"
      using mset_argsort [of "map Fin rs'"] sorted_argsort_Fin [of rs'] by (intro gh) simp_all
    then have "fdrcorrection (filter ?P xs) alpha = (map h rs', map g rs')"
      unfolding fdrcorrection_def p .
    then have fdr: "fdrcorrection (filter ?P xs) alpha
                      = (map (\<lambda>x. h (f x)) (filter ?P xs), map (\<lambda>x. g (f x)) (filter ?P xs))"
      by (simp add: rs'_def comp_def)
    have "put_mask xs (map ?P xs) (map (\<lambda>x. g (f x)) (filter ?P xs)) = map G xs"
      unfolding G_def by (rule put_mask_map)
    moreover have "put_mask xs (map ?P xs)
                     (map bool_to_float (map (\<lambda>x. h (f x)) (filter ?P xs))) = map H xs"
      using put_mask_map [of xs ?P "\<lambda>x. bool_to_float (h (f x))"] by (simp add: H_def comp_def)
    ultimately show ?thesis
      by (simp add: mtc_bh fdr)
  qed
  then show ?thesis by blast
qed


text \<open>
  numpy does not fix the order of \<^verbatim>\<open>argsort\<close> among equal entries.  On p-values the
  result of \<^verbatim>\<open>fdrcorrection\<close> does not depend on it: every index array that sorts
  gives the result of the stable one.
\<close>

lemma fdr_body_tie_order:
  assumes "\<forall>r \<in> set rs. 0 \<le> r" and "mset ind = mset [0..<length rs]"
    and "sorted (map (\<lambda>i. rs ! i) ind)"
  shows "fdr_body ind (map Fin rs) alpha = fdrcorrection (map Fin rs) alpha"
proof -
  obtain g h where gh:
    "\<And>rs' ind. mset rs' = mset rs \<Longrightarrow> mset ind = mset [0..<length rs'] \<Longrightarrow>
        sorted (map (\<lambda>i. rs' ! i) ind) \<Longrightarrow>
        fdr_body ind (map Fin rs') alpha = (map h rs', map g rs')"
    using fdr_body_by_value [OF assms(1), of alpha] by blast
  have "fdr_body ind (map Fin rs) alpha = (map h rs, map g rs)"
    using assms(2,3) by (intro gh) simp_all
  moreover have "fdrcorrection (map Fin rs) alpha = (map h rs, map g rs)"
    unfolding fdrcorrection_def
    using mset_argsort [of "map Fin rs"] sorted_argsort_Fin [of rs] by (intro gh) simp_all
  ultimately show ?thesis by simp
qed

text \<open>
  The entries must not be negative for this: two equal negative entries get different
  q-values, the one sorted first the smaller, so exchanging them changes the result at
  their indices.
\<close>

lemma tied_negative_entries:
  "multiple_testing_correction [Fin (- 1), Fin (- 1)] (Fin (5/100)) ''benjamini-hochberg''
     = Inr ([Fin (- 2), Fin (- 1)], [Fin 1, Fin 1]) \<and>
   take_ind [Fin (- 1), Fin (- 1)] [1, 0] = [Fin (- 1), Fin (- 1)] \<and>
   take_ind [Fin (- 2), Fin (- 1)] [1, 0] = [Fin (- 1), Fin (- 2)]"
  by (simp add: mtc_eval take_ind_def del: set_filter)

subsection \<open>Lemmas on \<^verbatim>\<open>calc_pvalues\<close>\<close>

lemmas calc_eval = calc_pvalues_def score_category_def zip_star_def hypergeom_sf_def hypergeom_pmf_def

lemma score_loop_found:
  "set subsets \<subseteq> fst ` set gene_sets \<Longrightarrow>
     score_loop k bg_num query gene_sets subsets vals
       = Inr (vals @ map (\<lambda>s. score_category k bg_num query (the (map_of gene_sets s))) subsets)"
proof (induction subsets arbitrary: vals)
  case Nil
  then show ?case by simp
next
  case (Cons s subsets)
  then have "s \<in> fst ` set gene_sets" by simp
  then obtain category where "map_of gene_sets s = Some category"
    by (metis map_of_eq_None_iff not_Some_eq)
  then show ?case using Cons by simp
qed

lemma calc_pvalues_vals:
  "calc_pvalues query gene_sets background
     = Inr (zip_star (map (\<lambda>s. score_category (int (length query))
                                 (case background of None \<Rightarrow> 20000 | Some b \<Rightarrow> b)
                                 (set query) (the (map_of gene_sets s)))
                        (sort (map fst gene_sets))))"
  by (simp add: calc_pvalues_def Let_def score_loop_found)

lemma sort_mset_cong:
  fixes xs ys :: "'a::linorder list"
  shows "mset xs = mset ys \<Longrightarrow> sort xs = sort ys"
  by (metis mset_sort properties_for_sort sorted_sort)

lemma map_of_mset_cong:
  assumes "mset xs = mset ys" and "distinct (map fst ys)"
  shows "map_of xs = map_of ys"
proof -
  have "mset (map fst xs) = mset (map fst ys)"
    using assms(1) by simp
  then have d: "distinct (map fst xs)"
    using assms(2) by (metis mset_eq_imp_distinct_iff)
  have s: "set xs = set ys"
    using assms(1) by (rule mset_eq_setD)
  show ?thesis
  proof
    fix a
    show "map_of xs a = map_of ys a"
    proof (cases "map_of ys a")
      case None
      then have "a \<notin> fst ` set ys" by (simp add: map_of_eq_None_iff)
      then have "a \<notin> fst ` set xs" using s by simp
      then have "map_of xs a = None" by (simp add: map_of_eq_None_iff)
      then show ?thesis using None by simp
    next
      case (Some b)
      then have "(a, b) \<in> set xs" using assms(2) s by simp
      then show ?thesis using Some d by simp
    qed
  qed
qed

lemma zip_star_columns:
  assumes "vals \<noteq> []"
  shows "\<exists>ps xs ms hs. zip_star vals = Columns ps xs ms hs \<and>
           length ps = length vals \<and> length xs = length vals \<and>
           length ms = length vals \<and> length hs = length vals \<and>
           (\<forall>t < length vals. (ps ! t, xs ! t, ms ! t, hs ! t) = vals ! t)"
  using assms by (simp add: zip_star_def)

section \<open>Properties of \<^verbatim>\<open>multiple_testing_correction\<close>\<close>

text \<open>
  C1, as the code has it.  For both methods the call returns two arrays of the length of
  the input.  At an index whose input is NaN the q-value is NaN, and the entry of the
  reject array is NaN as well: \<^verbatim>\<open>rej\<close> is a copy of the float input and only the
  positions of the mask are written.  At every other index the reject entry is the cast
  of a boolean, 0.0 or 1.0.
\<close>

theorem nan_positions_kept:
  assumes "method = ''bonferroni'' \<or> method = ''benjamini-hochberg''"
  shows "\<exists>q rej. multiple_testing_correction ps alpha method = Inr (q, rej) \<and>
           length q = length ps \<and> length rej = length ps \<and>
           (\<forall>i < length ps. isnan (ps ! i) \<longrightarrow> q ! i = NaN \<and> rej ! i = NaN) \<and>
           (\<forall>i < length ps. \<not> isnan (ps ! i) \<longrightarrow> rej ! i = Fin 0 \<or> rej ! i = Fin 1)"
proof -
  let ?P = "\<lambda>x. \<not> isnan x"
  have nan: "x = NaN" if "isnan x" for x
    using that by (cases x) auto
  show ?thesis
  proof (cases "method = ''bonferroni''")
    case True
    then show ?thesis
      by (auto simp: mtc_bonferroni bool_to_float_def nan)
  next
    case False
    with assms have m: "method = ''benjamini-hochberg''" by simp
    let ?r = "map bool_to_float (fst (fdrcorrection (filter ?P ps) alpha))"
    let ?q = "snd (fdrcorrection (filter ?P ps) alpha)"
    have lr: "length ?r = length (filter ?P ps)"
      by (simp add: length_fdrcorrection)
    have flag: "put_mask ps (map ?P ps) ?r ! i = Fin 0 \<or> put_mask ps (map ?P ps) ?r ! i = Fin 1"
      if "i < length ps" "?P (ps ! i)" for i
    proof -
      have "length (filter ?P (take i ps)) < length ?r"
        using rank_in_subset [of i ps ?P] that lr by simp
      then have "?r ! length (filter ?P (take i ps)) \<in> range bool_to_float"
        by simp
      then show ?thesis
        using put_mask_hits [of ?r ?P ps i] that lr by (auto simp: bool_to_float_def)
    qed
    have keep: "put_mask ps (map ?P ps) vs ! i = NaN" if "i < length ps" "isnan (ps ! i)" for i vs
      using put_mask_keeps [of i ps ?P vs] that nan by simp
    show ?thesis
      using flag keep by (simp add: m mtc_bh length_put_mask)
  qed
qed

theorem nan_positions_kept_witness:
  "(''benjamini-hochberg'' = ''bonferroni'' \<or> ''benjamini-hochberg'' = ''benjamini-hochberg'') \<and>
   isnan ([NaN, Fin (1/100)] ! 0) \<and>
   (\<exists>q rej. multiple_testing_correction [NaN, Fin (1/100)] (Fin (5/100)) ''benjamini-hochberg''
              = Inr (q, rej) \<and>
            length q = 2 \<and> length rej = 2 \<and> q ! 0 = NaN \<and> rej ! 0 = NaN \<and>
            (rej ! 1 = Fin 0 \<or> rej ! 1 = Fin 1))"
  using nan_positions_kept [of "''benjamini-hochberg''" "[NaN, Fin (1/100)]" "Fin (5/100)"]
  by auto

text \<open>
  C1 as stated asks for the reject flag False at a NaN index.  For the input
  \<open>[NaN, 0.01]\<close> the reject array is \<open>[NaN, 1.0]\<close>: its entry at index 0 is NaN, which is
  not the cast of False (and is truthy in Python).
\<close>

theorem nan_reject_not_False:
  "isnan ([NaN, Fin (1/100)] ! 0) \<and>
   multiple_testing_correction [NaN, Fin (1/100)] (Fin (5/100)) ''bonferroni''
     = Inr ([NaN, Fin (1/100)], [NaN, Fin 1]) \<and>
   [NaN, Fin 1] ! 0 \<noteq> bool_to_float False"
  by (simp add: mtc_eval)

text \<open>
  C5: under \<^verbatim>\<open>bonferroni\<close>, at an index \<open>i\<close> with a number \<open>p\<^sub>i\<close>, the q-value is \<open>p\<^sub>i\<close>
  times the count of non-NaN entries, and the reject entry is the cast of the strict
  comparison \<open>q\<^sub>i < alpha\<close>.  Nothing clamps the product, so it can exceed 1.
\<close>

theorem bonferroni_values:
  assumes "multiple_testing_correction ps alpha ''bonferroni'' = Inr (q, rej)"
    and "i < length ps" and "ps ! i = Fin r"
  shows "q ! i = Fin (r * real (length (filter (\<lambda>x. \<not> isnan x) ps))) \<and>
         rej ! i = bool_to_float (flt (q ! i) alpha) \<and>
         (rej ! i = Fin 1 \<longleftrightarrow> flt (q ! i) alpha) \<and>
         (rej ! i = Fin 0 \<longleftrightarrow> \<not> flt (q ! i) alpha)"
  using assms by (auto simp: mtc_bonferroni bool_to_float_def)

theorem bonferroni_values_witness:
  "multiple_testing_correction [Fin (6/10), NaN, Fin (1/100)] (Fin (5/100)) ''bonferroni''
     = Inr ([Fin (12/10), NaN, Fin (2/100)], [Fin 0, NaN, Fin 1]) \<and>
   [Fin (12/10), NaN, Fin (2/100)] ! 0 = Fin (6/10 * real (length (filter (\<lambda>x. \<not> isnan x) [Fin (6/10), NaN, Fin (1/100)]))) \<and>
   flt (Fin 1) ([Fin (12/10), NaN, Fin (2/100)] ! 0) \<and>
   [Fin 0, NaN, Fin 1] ! 0 = bool_to_float (flt ([Fin (12/10), NaN, Fin (2/100)] ! 0) (Fin (5/100)))"
proof -
  have h: "multiple_testing_correction [Fin (6/10), NaN, Fin (1/100)] (Fin (5/100)) ''bonferroni''
     = Inr ([Fin (12/10), NaN, Fin (2/100)], [Fin 0, NaN, Fin 1])"
    by (simp add: mtc_eval)
  show ?thesis
    using h bonferroni_values [OF h, of 0 "6/10"] by simp
qed

text \<open>
  C9: the call raises exactly when the method is neither \<^verbatim>\<open>bonferroni\<close> nor
  \<^verbatim>\<open>benjamini-hochberg\<close>; the result is then the \<^verbatim>\<open>ValueError\<close> carrying the method
  and no arrays.  For the two known methods a pair of arrays is returned: the
  length checks of the two masked assignments never fail.
\<close>

theorem unknown_method_raises:
  "(method \<noteq> ''bonferroni'' \<and> method \<noteq> ''benjamini-hochberg''
      \<longrightarrow> multiple_testing_correction ps alpha method = Inl (ValueError method)) \<and>
   (method = ''bonferroni'' \<or> method = ''benjamini-hochberg''
      \<longrightarrow> (\<exists>q rej. multiple_testing_correction ps alpha method = Inr (q, rej))) \<and>
   ((\<exists>e. multiple_testing_correction ps alpha method = Inl e)
      \<longleftrightarrow> (method \<noteq> ''bonferroni'' \<and> method \<noteq> ''benjamini-hochberg''))"
proof -
  have unknown: "multiple_testing_correction ps alpha method = Inl (ValueError method)"
    if "method \<noteq> ''bonferroni''" "method \<noteq> ''benjamini-hochberg''"
    using that by (simp add: multiple_testing_correction_def Let_def)
  have known: "\<exists>q rej. multiple_testing_correction ps alpha method = Inr (q, rej)"
    if "method = ''bonferroni'' \<or> method = ''benjamini-hochberg''"
    using that mtc_bonferroni [of ps alpha] mtc_bh [of ps alpha] by auto
  show ?thesis
    using unknown known by (cases "method = ''bonferroni'' \<or> method = ''benjamini-hochberg''") auto
qed

theorem unknown_method_raises_witness:
  "multiple_testing_correction [Fin (1/100), NaN] (Fin (5/100)) ''holm'' = Inl (ValueError ''holm'') \<and>
   (\<exists>q rej. multiple_testing_correction [Fin (1/100), NaN] (Fin (5/100)) ''bonferroni'' = Inr (q, rej)) \<and>
   (\<exists>q rej. multiple_testing_correction [Fin (1/100), NaN] (Fin (5/100)) ''benjamini-hochberg'' = Inr (q, rej))"
  using unknown_method_raises [of "''holm''" "[Fin (1/100), NaN]" "Fin (5/100)"]
    unknown_method_raises [of "''bonferroni''" "[Fin (1/100), NaN]" "Fin (5/100)"]
    unknown_method_raises [of "''benjamini-hochberg''" "[Fin (1/100), NaN]" "Fin (5/100)"]
  by simp

text \<open>
  C10: when the input is empty or all NaN, the subset handed to the correction is empty,
  \<^verbatim>\<open>_ecdf\<close> of no observations is the empty array, \<^verbatim>\<open>fdrcorrection\<close> returns two
  empty arrays, and both methods return without error two unchanged copies of the input.
\<close>

theorem empty_subset_returns:
  assumes "method = ''bonferroni'' \<or> method = ''benjamini-hochberg''"
    and "\<forall>x \<in> set ps. isnan x"
  shows "compress ps (map (\<lambda>x. \<not> isnan x) ps) = [] \<and>
         ecdf ([] :: float64 list) = [] \<and>
         fdrcorrection [] alpha = ([], []) \<and>
         multiple_testing_correction ps alpha method = Inr (ps, ps)"
proof -
  have e: "filter (\<lambda>x. \<not> isnan x) ps = []"
    using assms(2) by (rule filter_not_nan_empty)
  have "map (\<lambda>x. if \<not> isnan x then f x else x) ps = ps" for f
    using assms(2) by (induction ps) auto
  then have b: "multiple_testing_correction ps alpha ''bonferroni'' = Inr (ps, ps)"
    by (simp add: mtc_bonferroni)
  have h: "multiple_testing_correction ps alpha ''benjamini-hochberg'' = Inr (ps, ps)"
    by (simp add: mtc_bh e fdrcorrection_Nil put_mask_Nil_values)
  show ?thesis
    using assms(1) b h by (auto simp: compress_map e ecdf_def fdrcorrection_Nil)
qed

theorem empty_subset_returns_witness:
  "multiple_testing_correction [] (Fin (5/100)) ''bonferroni'' = Inr ([], []) \<and>
   multiple_testing_correction [] (Fin (5/100)) ''benjamini-hochberg'' = Inr ([], []) \<and>
   multiple_testing_correction [NaN, NaN] (Fin (5/100)) ''bonferroni'' = Inr ([NaN, NaN], [NaN, NaN]) \<and>
   multiple_testing_correction [NaN, NaN] (Fin (5/100)) ''benjamini-hochberg'' = Inr ([NaN, NaN], [NaN, NaN])"
  using empty_subset_returns [of "''bonferroni''" "[]" "Fin (5/100)"]
    empty_subset_returns [of "''benjamini-hochberg''" "[]" "Fin (5/100)"]
    empty_subset_returns [of "''bonferroni''" "[NaN, NaN]" "Fin (5/100)"]
    empty_subset_returns [of "''benjamini-hochberg''" "[NaN, NaN]" "Fin (5/100)"]
  by simp

text \<open>
  C3: under \<^verbatim>\<open>benjamini-hochberg\<close>, read the reject entries of the non-NaN subset in the
  order of the \<^verbatim>\<open>argsort\<close> (ascending p-values, \<open>n\<close> of them).  The test at sorted
  position \<open>j\<close> (0-indexed) is \<open>p_sorted[j] \<le> ((j + 1) / n) * alpha\<close>.  If no position
  passes the test, no position is rejected.  If \<open>l\<close> is the last position that passes,
  the positions up to and including \<open>l\<close> are rejected, whether or not they pass their own
  test, and no position after \<open>l\<close> is.
\<close>

theorem bh_reject_prefix:
  assumes "multiple_testing_correction ps alpha ''benjamini-hochberg'' = Inr (q, rej)"
    and "msk = map (\<lambda>x. \<not> isnan x) ps"
    and "p = compress ps msk"
    and "n = length p"
    and "sortind = argsort p"
    and "p_sorted = take_ind p sortind"
    and "R = take_ind (compress rej msk) sortind"
  shows "mset sortind = mset [0..<n] \<and> sorted (map sort_key_of p_sorted) \<and> length R = n \<and>
         ((\<forall>j < n. \<not> fle (p_sorted ! j) (fmul (Fin (real (Suc j) / real n)) alpha))
            \<longrightarrow> (\<forall>k < n. R ! k = Fin 0)) \<and>
         (\<forall>l < n. fle (p_sorted ! l) (fmul (Fin (real (Suc l) / real n)) alpha) \<and>
                   (\<forall>j. l < j \<and> j < n \<longrightarrow>
                        \<not> fle (p_sorted ! j) (fmul (Fin (real (Suc j) / real n)) alpha))
            \<longrightarrow> (\<forall>k < n. R ! k = (if k \<le> l then Fin 1 else Fin 0)))"
proof -
  let ?test = "\<lambda>j. fle (p_sorted ! j) (fmul (Fin (real (Suc j) / real n)) alpha)"
  have perm: "mset sortind = mset [0..<n]"
    by (simp add: assms(4,5) mset_argsort)
  have srt: "sorted (map sort_key_of p_sorted)"
    using sorted_argsort [of p] by (simp add: assms(5,6) take_ind_def comp_def)
  have len: "length R = n"
    using perm_indices(3) [OF perm] by (simp add: assms(7) take_ind_def)
  have sub: "compress rej msk = map bool_to_float (fst (fdrcorrection p alpha))"
    using mtc_bh_subset(2) [OF assms(1)] by (simp add: assms(2,3))
  have R: "R ! k = bool_to_float (\<exists>j. k \<le> j \<and> j < n \<and> ?test j)" if "k < n" for k
  proof -
    have "sortind ! k < n"
      using perm_indices [OF perm] that by (metis atLeastLessThan_iff nth_mem)
    then have "R ! k = bool_to_float (fst (fdr_body sortind p alpha) ! (sortind ! k))"
      using that perm_indices(3) [OF perm]
      by (simp add: assms(7) sub take_ind_def length_fdr_body assms(4) fdrcorrection_def assms(5))
    then show ?thesis
      using fdr_body_reject [of sortind p k alpha] perm that by (simp add: assms(4,6))
  qed
  have none: "\<forall>k < n. R ! k = Fin 0" if "\<forall>j < n. \<not> ?test j"
    using that by (auto simp: R bool_to_float_def)
  have some: "\<forall>k < n. R ! k = (if k \<le> l then Fin 1 else Fin 0)"
    if "l < n" "?test l" "\<forall>j. l < j \<and> j < n \<longrightarrow> \<not> ?test j" for l
  proof (intro allI impI)
    fix k assume k: "k < n"
    have "(\<exists>j. k \<le> j \<and> j < n \<and> ?test j) \<longleftrightarrow> k \<le> l"
    proof
      assume "\<exists>j. k \<le> j \<and> j < n \<and> ?test j"
      then obtain j where j: "k \<le> j" "j < n" "?test j" by blast
      then have "\<not> l < j" using that(3) by blast
      then show "k \<le> l" using j(1) by simp
    next
      assume "k \<le> l"
      then show "\<exists>j. k \<le> j \<and> j < n \<and> ?test j" using that(1,2) by blast
    qed
    then show "R ! k = (if k \<le> l then Fin 1 else Fin 0)"
      using k by (simp add: R bool_to_float_def)
  qed
  show ?thesis
    using perm srt len none some by blast
qed

theorem bh_reject_prefix_witness:
  "multiple_testing_correction [Fin (4/100), NaN, Fin (2/100), Fin (3/100)] (Fin (5/100))
      ''benjamini-hochberg''
     = Inr ([Fin (4/100), NaN, Fin (4/100), Fin (4/100)], [Fin 1, NaN, Fin 1, Fin 1]) \<and>
   compress [Fin (4/100), NaN, Fin (2/100), Fin (3/100)] [True, False, True, True]
     = [Fin (4/100), Fin (2/100), Fin (3/100)] \<and>
   argsort [Fin (4/100), Fin (2/100), Fin (3/100)] = [1, 2, 0] \<and>
   \<not> fle (Fin (2/100)) (fmul (Fin (real (Suc 0) / real 3)) (Fin (5/100))) \<and>
   fle (Fin (4/100)) (fmul (Fin (real (Suc 2) / real 3)) (Fin (5/100))) \<and>
   take_ind (compress [Fin 1, NaN, Fin 1, Fin 1] [True, False, True, True]) [1, 2, 0] ! 0 = Fin 1 \<and>
   take_ind (compress [Fin 1, NaN, Fin 1, Fin 1] [True, False, True, True]) [1, 2, 0] ! 1 = Fin 1 \<and>
   take_ind (compress [Fin 1, NaN, Fin 1, Fin 1] [True, False, True, True]) [1, 2, 0] ! 2 = Fin 1"
proof -
  have h: "multiple_testing_correction [Fin (4/100), NaN, Fin (2/100), Fin (3/100)] (Fin (5/100))
      ''benjamini-hochberg''
     = Inr ([Fin (4/100), NaN, Fin (4/100), Fin (4/100)], [Fin 1, NaN, Fin 1, Fin 1])"
    by (simp add: mtc_eval del: set_filter)
  have c: "compress [Fin (4/100), NaN, Fin (2/100), Fin (3/100)] (map (\<lambda>x. \<not> isnan x) [Fin (4/100), NaN, Fin (2/100), Fin (3/100)])
     = [Fin (4/100), Fin (2/100), Fin (3/100)]"
    by (simp add: compress_def)
  have a: "argsort [Fin (4/100), Fin (2/100), Fin (3/100)] = [1, 2, 0]"
    by (simp add: argsort_def sort_key_of_def)
  note t = bh_reject_prefix [OF h refl refl refl refl refl refl, unfolded c a]
  note u = t [THEN conjunct2, THEN conjunct2, THEN conjunct2, THEN conjunct2, THEN spec, of 2]
  have r: "\<forall>k < length [Fin (4/100), Fin (2/100), Fin (3/100)].
             take_ind (compress [Fin 1, NaN, Fin 1, Fin 1]
               (map (\<lambda>x. \<not> isnan x) [Fin (4/100), NaN, Fin (2/100), Fin (3/100)])) [1, 2, 0] ! k
             = (if k \<le> 2 then Fin 1 else Fin 0)"
    by (rule u [THEN mp, THEN mp]) (simp_all add: take_ind_def)
  show ?thesis
    using h a r [THEN spec, of 0] r [THEN spec, of 1] r [THEN spec, of 2]
    by (simp add: compress_def)
qed

text \<open>
  C2: under \<^verbatim>\<open>benjamini-hochberg\<close>, read the q-values of the non-NaN subset in the order
  of the \<^verbatim>\<open>argsort\<close>.  That order visits every position of the subset once and the
  p-values along it are ascending.  The q-value at sorted position \<open>k\<close> is the minimum
  \<open>m\<close> of the raw corrected values at the positions \<open>k, \<dots>, n - 1\<close>, replaced by exactly 1
  when \<open>m\<close> exceeds 1; the q-values are non-decreasing along the sorted positions; every
  q-value at a non-NaN index is at most 1; of two indices the one with the strictly
  smaller p-value has the smaller or equal q-value; and every q-value at a non-NaN index
  is at least 0 when the array holds p-values (no negative entry).
\<close>

theorem bh_q_running_minimum:
  assumes "multiple_testing_correction ps alpha ''benjamini-hochberg'' = Inr (q, rej)"
    and "msk = map (\<lambda>x. \<not> isnan x) ps"
    and "p = compress ps msk"
    and "n = length p"
    and "sortind = argsort p"
    and "raw = pvals_corrected_raw (take_ind p sortind)"
    and "Q = take_ind (compress q msk) sortind"
  shows "mset sortind = mset [0..<n] \<and>
         sorted (map sort_key_of (take_ind p sortind)) \<and>
         (\<forall>k k'. k \<le> k' \<and> k' < n \<longrightarrow> fle (take_ind p sortind ! k) (take_ind p sortind ! k')) \<and>
         length Q = n \<and>
         (\<forall>k < n. \<exists>m. (\<exists>j. k \<le> j \<and> j < n \<and> m = raw ! j) \<and>
                       (\<forall>j. k \<le> j \<and> j < n \<longrightarrow> fle m (raw ! j)) \<and>
                       Q ! k = (if flt (Fin 1) m then Fin 1 else m)) \<and>
         (\<forall>k k'. k \<le> k' \<and> k' < n \<longrightarrow> fle (Q ! k) (Q ! k')) \<and>
         (\<forall>i < length ps. \<not> isnan (ps ! i) \<longrightarrow> fle (q ! i) (Fin 1)) \<and>
         (\<forall>i j. i < length ps \<and> j < length ps \<and> flt (ps ! i) (ps ! j) \<longrightarrow> fle (q ! i) (q ! j)) \<and>
         ((\<forall>x \<in> set ps. isnan x \<or> fle (Fin 0) x) \<longrightarrow>
            (\<forall>i < length ps. \<not> isnan (ps ! i) \<longrightarrow> fle (Fin 0) (q ! i)))"
proof -
  let ?P = "\<lambda>x. \<not> isnan x"
  have p: "p = filter ?P ps"
    by (simp add: assms(2,3) compress_map)
  then obtain rs where rs: "p = map Fin rs"
    using no_nan_map_Fin [of p] by auto
  have n: "n = length rs"
    by (simp add: assms(4) rs)
  have perm: "mset sortind = mset [0..<length rs]"
    by (simp add: assms(5) mset_argsort rs)
  note pi = perm_indices [OF perm]
  define raws where
    "raws = map (\<lambda>j. rs ! (sortind ! j) / (real (Suc j) / real (length rs))) [0..<length rs]"
  define qs where "qs = snd (fdrcorrection p alpha)"
  have lr: "length raws = n"
    by (simp add: raws_def n)
  have raw: "raw = map Fin raws"
    unfolding assms(6) rs raws_def using perm by (rule raw_take_ind)
  have sub: "compress q msk = qs"
    using mtc_bh_subset(1) [OF assms(1)] by (simp add: assms(2,3) qs_def)
  have lq: "length qs = n"
    by (simp add: qs_def length_fdrcorrection assms(4))
  have ind: "sortind ! k < n" if "k < n" for k
    using pi that n by (metis atLeastLessThan_iff nth_mem)
  have Q: "Q ! k = Fin (min 1 (Min (set (drop k raws))))" if "k < n" for k
  proof -
    have "Q ! k = snd (fdr_body sortind (map Fin rs) alpha) ! (sortind ! k)"
      using that pi(3) n
      by (simp add: assms(7) sub take_ind_def qs_def fdrcorrection_def assms(5) rs)
    then show ?thesis
      using fdr_body_q [OF perm, of k alpha] that n by (simp add: raws_def)
  qed
  have len: "length Q = n"
    using pi(3) n by (simp add: assms(7) take_ind_def)
  have run: "\<exists>m. (\<exists>j. k \<le> j \<and> j < n \<and> m = raw ! j) \<and>
                 (\<forall>j. k \<le> j \<and> j < n \<longrightarrow> fle m (raw ! j)) \<and>
                 Q ! k = (if flt (Fin 1) m then Fin 1 else m)" if kn: "k < n" for k
  proof -
    define \<mu> where "\<mu> = Min (set (drop k raws))"
    obtain j where j: "k \<le> j" "j < n" "\<mu> = raws ! j"
      using suffix_Min_attained [of k raws] kn lr by (auto simp: \<mu>_def)
    have "\<exists>j. k \<le> j \<and> j < n \<and> Fin \<mu> = raw ! j"
      using j lr by (auto simp: raw)
    moreover have "\<forall>j. k \<le> j \<and> j < n \<longrightarrow> fle (Fin \<mu>) (raw ! j)"
      using suffix_Min_le [of k _ raws] lr by (simp add: raw \<mu>_def)
    moreover have "Q ! k = (if flt (Fin 1) (Fin \<mu>) then Fin 1 else Fin \<mu>)"
      using Q [OF kn] by (simp add: \<mu>_def min_def)
    ultimately show ?thesis by blast
  qed
  have mono: "fle (Q ! k) (Q ! k')" if "k \<le> k'" "k' < n" for k k'
  proof -
    have "Min (set (drop k raws)) \<le> Min (set (drop k' raws))"
      using that lr by (intro suffix_Min_mono) simp_all
    then show ?thesis
      using that Q [of k] Q [of k'] by (simp add: min_def)
  qed
  have pick: "\<exists>k < n. q ! i = Q ! k \<and> ps ! i = Fin (rs ! (sortind ! k))"
    if i: "i < length ps" "\<not> isnan (ps ! i)" for i
  proof -
    define c where "c = length (filter ?P (take i ps))"
    have c: "c < n"
      using rank_in_subset [of i ps ?P] i by (simp add: c_def assms(4) p)
    have "q = put_mask ps (map ?P ps) qs"
      using assms(1) by (simp add: mtc_bh qs_def p)
    then have qi: "q ! i = qs ! c"
      using put_mask_hits [of qs ?P ps i] i lq by (simp add: c_def assms(4) p)
    have "c \<in> set sortind"
      using c pi(2) n by simp
    then obtain k where k: "k < n" "sortind ! k = c"
      using pi(3) n by (auto simp: in_set_conv_nth)
    have "ps ! i = p ! c"
      using put_mask_hits [of p ?P ps i] i put_mask_map [of ps ?P id]
      by (simp add: c_def p map_idI)
    then have "ps ! i = Fin (rs ! (sortind ! k))"
      using k c n by (simp add: rs)
    moreover have "q ! i = Q ! k"
      using k pi(3) n c lq by (simp add: qi assms(7) sub take_ind_def)
    ultimately show ?thesis using k(1) by blast
  qed
  have upper: "fle (q ! i) (Fin 1)" if i: "i < length ps" "\<not> isnan (ps ! i)" for i
  proof -
    obtain k where "k < n" "q ! i = Q ! k"
      using pick [OF i] by blast
    then show ?thesis by (simp add: Q)
  qed
  have lower: "fle (Fin 0) (q ! i)"
    if nonneg: "\<forall>x \<in> set ps. isnan x \<or> fle (Fin 0) x"
      and i: "i < length ps" "\<not> isnan (ps ! i)" for i
  proof -
    have "0 \<le> r" if "r \<in> set rs" for r
    proof -
      have "Fin r \<in> set ps"
        using that rs p by (metis filter_is_subset image_eqI list.set_map subsetD)
      then show ?thesis using nonneg by auto
    qed
    then have "0 \<le> rs ! (sortind ! j)" if "j < n" for j
      using ind [OF that] n by simp
    then have "0 \<le> x" if "x \<in> set raws" for x
      using that n by (auto simp: raws_def)
    moreover obtain k where k: "k < n" "q ! i = Q ! k"
      using pick [OF i] by blast
    moreover have "Min (set (drop k raws)) \<in> set raws"
      using suffix_Min_attained [of k raws] k(1) lr by auto
    ultimately show ?thesis
      by (simp add: Q)
  qed
  have permn: "mset sortind = mset [0..<n]"
    using perm n by simp
  have key: "sorted (map sort_key_of (take_ind p sortind))"
    using sorted_argsort [of p] by (simp add: assms(5) take_ind_def comp_def)
  have srs: "sorted (map (\<lambda>i. rs ! i) sortind)"
    using sorted_argsort_Fin [of rs] by (simp add: assms(5) rs)
  have at: "take_ind p sortind ! k = Fin (rs ! (sortind ! k))" if kn: "k < n" for k
    using kn ind [OF kn] pi(3) n by (simp add: take_ind_def rs)
  have asc: "fle (take_ind p sortind ! k) (take_ind p sortind ! k')"
    if kk: "k \<le> k'" "k' < n" for k k'
  proof -
    have "map (\<lambda>i. rs ! i) sortind ! k \<le> map (\<lambda>i. rs ! i) sortind ! k'"
      using srs kk pi(3) n by (intro sorted_nth_mono) simp_all
    then show ?thesis
      using kk pi(3) n by (simp add: at)
  qed
  have strict: "fle (q ! i) (q ! j)"
    if ij: "i < length ps" "j < length ps" "flt (ps ! i) (ps ! j)" for i j
  proof -
    have ni: "\<not> isnan (ps ! i)" and nj: "\<not> isnan (ps ! j)"
      using ij(3) by (cases "ps ! i"; cases "ps ! j"; simp)+
    obtain k where k: "k < n" "q ! i = Q ! k" "ps ! i = Fin (rs ! (sortind ! k))"
      using pick [OF ij(1) ni] by blast
    obtain k' where k': "k' < n" "q ! j = Q ! k'" "ps ! j = Fin (rs ! (sortind ! k'))"
      using pick [OF ij(2) nj] by blast
    have lt: "rs ! (sortind ! k) < rs ! (sortind ! k')"
      using ij(3) by (simp add: k(3) k'(3))
    have "k \<le> k'"
    proof (rule ccontr)
      assume "\<not> k \<le> k'"
      then have "k' \<le> k" by simp
      then have "fle (take_ind p sortind ! k') (take_ind p sortind ! k)"
        using k(1) by (rule asc)
      then show False
        using lt k(1) k'(1) by (simp add: at)
    qed
    then show ?thesis
      using mono [of k k'] k'(1) by (simp add: k(2) k'(2))
  qed
  have c3: "\<forall>k k'. k \<le> k' \<and> k' < n \<longrightarrow> fle (take_ind p sortind ! k) (take_ind p sortind ! k')"
    using asc by blast
  have c5: "\<forall>k < n. \<exists>m. (\<exists>j. k \<le> j \<and> j < n \<and> m = raw ! j) \<and>
                       (\<forall>j. k \<le> j \<and> j < n \<longrightarrow> fle m (raw ! j)) \<and>
                       Q ! k = (if flt (Fin 1) m then Fin 1 else m)"
    using run by blast
  have c6: "\<forall>k k'. k \<le> k' \<and> k' < n \<longrightarrow> fle (Q ! k) (Q ! k')"
    using mono by blast
  have c7: "\<forall>i < length ps. \<not> isnan (ps ! i) \<longrightarrow> fle (q ! i) (Fin 1)"
    using upper by blast
  have c8: "\<forall>i j. i < length ps \<and> j < length ps \<and> flt (ps ! i) (ps ! j) \<longrightarrow> fle (q ! i) (q ! j)"
    using strict by blast
  have c9: "(\<forall>x \<in> set ps. isnan x \<or> fle (Fin 0) x) \<longrightarrow>
            (\<forall>i < length ps. \<not> isnan (ps ! i) \<longrightarrow> fle (Fin 0) (q ! i))"
    using lower by blast
  show ?thesis
    by (intro conjI) (rule permn key c3 len c5 c6 c7 c8 c9)+
qed

theorem bh_q_running_minimum_witness:
  "multiple_testing_correction [Fin (4/100), NaN, Fin (2/100), Fin (3/100)] (Fin (5/100))
      ''benjamini-hochberg''
     = Inr ([Fin (4/100), NaN, Fin (4/100), Fin (4/100)], [Fin 1, NaN, Fin 1, Fin 1]) \<and>
   argsort [Fin (4/100), Fin (2/100), Fin (3/100)] = [1, 2, 0] \<and>
   take_ind [Fin (4/100), Fin (2/100), Fin (3/100)] [1, 2, 0]
     = [Fin (2/100), Fin (3/100), Fin (4/100)] \<and>
   pvals_corrected_raw (take_ind [Fin (4/100), Fin (2/100), Fin (3/100)] [1, 2, 0])
     = [Fin (6/100), Fin (45/1000), Fin (4/100)] \<and>
   take_ind (compress [Fin (4/100), NaN, Fin (4/100), Fin (4/100)] [True, False, True, True]) [1, 2, 0]
     = [Fin (4/100), Fin (4/100), Fin (4/100)] \<and>
   fle ([Fin (4/100), Fin (4/100), Fin (4/100)] ! 0) ([Fin (4/100), Fin (4/100), Fin (4/100)] ! 2) \<and>
   fle ([Fin (4/100), NaN, Fin (4/100), Fin (4/100)] ! 2) (Fin 1) \<and>
   fle (Fin 0) ([Fin (4/100), NaN, Fin (4/100), Fin (4/100)] ! 2)"
proof -
  let ?ps = "[Fin (4/100), NaN, Fin (2/100), Fin (3/100)]"
  let ?q = "[Fin (4/100), NaN, Fin (4/100), Fin (4/100)]"
  have h: "multiple_testing_correction ?ps (Fin (5/100)) ''benjamini-hochberg''
             = Inr (?q, [Fin 1, NaN, Fin 1, Fin 1])"
    by (simp add: mtc_eval del: set_filter)
  have c: "compress ?ps (map (\<lambda>x. \<not> isnan x) ?ps) = [Fin (4/100), Fin (2/100), Fin (3/100)]"
    by (simp add: compress_def)
  have a: "argsort [Fin (4/100), Fin (2/100), Fin (3/100)] = [1, 2, 0]"
    by (simp add: argsort_def sort_key_of_def)
  have m: "map (\<lambda>x. \<not> isnan x) ?ps = [True, False, True, True]"
    by simp
  have nonneg: "\<forall>x \<in> set ?ps. isnan x \<or> fle (Fin 0) x"
    by simp
  note t = bh_q_running_minimum [OF h refl refl refl refl refl refl, unfolded c a m]
  have Q: "take_ind (compress ?q [True, False, True, True]) [1, 2, 0]
             = [Fin (4/100), Fin (4/100), Fin (4/100)]"
    by (simp add: compress_def take_ind_def)
  have mono: "fle ([Fin (4/100), Fin (4/100), Fin (4/100)] ! 0) ([Fin (4/100), Fin (4/100), Fin (4/100)] ! 2)"
    using t [THEN conjunct2, THEN conjunct2, THEN conjunct2, THEN conjunct2, THEN conjunct2,
        THEN conjunct1, THEN spec, THEN spec, of 0 2]
    unfolding Q by simp
  have up: "fle (?q ! 2) (Fin 1)"
    using t [THEN conjunct2, THEN conjunct2, THEN conjunct2, THEN conjunct2, THEN conjunct2,
        THEN conjunct2, THEN conjunct1, THEN spec, of 2]
    by simp
  have low: "fle (Fin 0) (?q ! 2)"
    using t [THEN conjunct2, THEN conjunct2, THEN conjunct2, THEN conjunct2, THEN conjunct2,
        THEN conjunct2, THEN conjunct2, THEN conjunct2, THEN mp, OF nonneg, THEN spec, of 2]
    by simp
  have raw: "pvals_corrected_raw (take_ind [Fin (4/100), Fin (2/100), Fin (3/100)] [1, 2, 0])
     = [Fin (6/100), Fin (45/1000), Fin (4/100)]"
    by (simp add: pvals_corrected_raw_def take_ind_def ecdf_def)
  have srt: "take_ind [Fin (4/100), Fin (2/100), Fin (3/100)] [1, 2, 0]
     = [Fin (2/100), Fin (3/100), Fin (4/100)]"
    by (simp add: take_ind_def)
  show ?thesis
    using h a srt raw Q mono up low by blast
qed

text \<open>
  C4: let \<open>perm\<close> be a permutation of the indices of a p-value array \<open>ps\<close> (entries NaN
  or not negative; equal entries allowed) and let \<^verbatim>\<open>benjamini-hochberg\<close> return \<open>(q, rej)\<close>
  on \<open>ps\<close>.  On the permuted array, whose entry \<open>j\<close> is \<open>ps[perm[j]]\<close>, it returns the
  q-values and reject entries permuted the same way: entry \<open>j\<close> of each output is the
  entry \<open>perm[j]\<close> of the output for \<open>ps\<close>.
\<close>

theorem bh_order_invariant:
  assumes "mset perm = mset [0..<length ps]"
    and "\<forall>x \<in> set ps. isnan x \<or> fle (Fin 0) x"
    and "multiple_testing_correction ps alpha ''benjamini-hochberg'' = Inr (q, rej)"
  shows "multiple_testing_correction (take_ind ps perm) alpha ''benjamini-hochberg''
           = Inr (take_ind q perm, take_ind rej perm)"
proof -
  obtain G H where GH:
    "\<And>xs. mset xs = mset ps \<Longrightarrow>
        multiple_testing_correction xs alpha ''benjamini-hochberg'' = Inr (map G xs, map H xs)"
    using mtc_bh_by_value [OF assms(2), of alpha] by blast
  have "q = map G ps" and "rej = map H ps"
    using GH [of ps] assms(3) by simp_all
  moreover have "multiple_testing_correction (take_ind ps perm) alpha ''benjamini-hochberg''
          = Inr (map G (take_ind ps perm), map H (take_ind ps perm))"
    using assms(1) by (intro GH mset_take_ind)
  ultimately show ?thesis
    by (simp add: take_ind_map [OF assms(1)])
qed


theorem bh_order_invariant_witness:
  "mset [4, 1, 3, 2, 0] = mset [0..<length [Fin (3/100), Fin (3/100), NaN, Fin (1/1000), Fin (1/2)]] \<and>
   multiple_testing_correction [Fin (3/100), Fin (3/100), NaN, Fin (1/1000), Fin (1/2)] (Fin (5/100))
       ''benjamini-hochberg''
     = Inr ([Fin (4/100), Fin (4/100), NaN, Fin (4/1000), Fin (1/2)], [Fin 1, Fin 1, NaN, Fin 1, Fin 0]) \<and>
   take_ind [Fin (3/100), Fin (3/100), NaN, Fin (1/1000), Fin (1/2)] [4, 1, 3, 2, 0]
     = [Fin (1/2), Fin (3/100), Fin (1/1000), NaN, Fin (3/100)] \<and>
   multiple_testing_correction [Fin (1/2), Fin (3/100), Fin (1/1000), NaN, Fin (3/100)] (Fin (5/100))
       ''benjamini-hochberg''
     = Inr ([Fin (1/2), Fin (4/100), Fin (4/1000), NaN, Fin (4/100)], [Fin 0, Fin 1, Fin 1, NaN, Fin 1])"
proof -
  let ?ps = "[Fin (3/100), Fin (3/100), NaN, Fin (1/1000), Fin (1/2)]"
  have perm: "mset [4, 1, 3, 2, 0] = mset [0..<length ?ps]"
    by (simp add: upt_rec eval_nat_numeral)
  have nonneg: "\<forall>x \<in> set ?ps. isnan x \<or> fle (Fin 0) x"
    by simp
  have h: "multiple_testing_correction ?ps (Fin (5/100)) ''benjamini-hochberg''
     = Inr ([Fin (4/100), Fin (4/100), NaN, Fin (4/1000), Fin (1/2)], [Fin 1, Fin 1, NaN, Fin 1, Fin 0])"
    by (simp add: mtc_eval del: set_filter)
  have t: "take_ind ?ps [4, 1, 3, 2, 0] = [Fin (1/2), Fin (3/100), Fin (1/1000), NaN, Fin (3/100)]"
    by (simp add: take_ind_def)
  show ?thesis
    using perm h t bh_order_invariant [OF perm nonneg h] by (simp add: take_ind_def)
qed

section \<open>Properties of \<^verbatim>\<open>calc_pvalues\<close>\<close>

text \<open>
  C7: for a non-empty dict of categories, \<^verbatim>\<open>calc_pvalues\<close> returns four columns with
  one entry per category; entry \<open>t\<close> of each column is the tuple computed for the
  category whose name is the \<open>t\<close>-th in ascending lexicographic order of the names; and
  the result is the same for every order in which the dict lists its items.
\<close>

theorem calc_pvalues_sorted_order:
  assumes "distinct (map fst gene_sets)" and "gene_sets \<noteq> []"
    and "names = sort (map fst gene_sets)"
    and "k = int (length query)"
    and "bg_num = (case background of None \<Rightarrow> 20000 | Some b \<Rightarrow> b)"
  shows "sorted names \<and> distinct names \<and> set names = fst ` set gene_sets \<and>
         length names = length gene_sets \<and>
         (\<exists>ps xs ms hs.
            calc_pvalues query gene_sets background = Inr (Columns ps xs ms hs) \<and>
            length ps = length gene_sets \<and> length xs = length gene_sets \<and>
            length ms = length gene_sets \<and> length hs = length gene_sets \<and>
            (\<forall>t < length gene_sets. \<exists>category.
                (names ! t, category) \<in> set gene_sets \<and>
                (ps ! t, xs ! t, ms ! t, hs ! t) = score_category k bg_num (set query) category)) \<and>
         (\<forall>gene_sets'. mset gene_sets' = mset gene_sets \<longrightarrow>
            calc_pvalues query gene_sets' background = calc_pvalues query gene_sets background)"
proof -
  let ?score = "\<lambda>gs s. score_category k bg_num (set query) (the (map_of gs s))"
  let ?vals = "map (?score gene_sets) names"
  have names: "sorted names" "distinct names" "set names = fst ` set gene_sets"
    "length names = length gene_sets"
    using assms(1) by (simp_all add: assms(3))
  have calc: "calc_pvalues query gs background = Inr (zip_star (map (?score gs) (sort (map fst gs))))"
    for gs
    by (simp add: calc_pvalues_vals assms(4,5))
  have "?vals \<noteq> []"
    using assms(2) names(4) by auto
  then obtain ps xs ms hs where cols: "zip_star ?vals = Columns ps xs ms hs"
    "length ps = length ?vals" "length xs = length ?vals"
    "length ms = length ?vals" "length hs = length ?vals"
    "\<forall>t < length ?vals. (ps ! t, xs ! t, ms ! t, hs ! t) = ?vals ! t"
    using zip_star_columns [of ?vals] by blast
  have row: "\<exists>category. (names ! t, category) \<in> set gene_sets \<and>
               (ps ! t, xs ! t, ms ! t, hs ! t) = score_category k bg_num (set query) category"
    if t: "t < length gene_sets" for t
  proof -
    have "names ! t \<in> fst ` set gene_sets"
      using t names(3,4) by (metis nth_mem)
    then obtain category where c: "(names ! t, category) \<in> set gene_sets"
      by auto
    then have "map_of gene_sets (names ! t) = Some category"
      using assms(1) by simp
    then have "?vals ! t = score_category k bg_num (set query) category"
      using t names(4) by simp
    then show ?thesis
      using c cols(6) t names(4) by auto
  qed
  have first: "\<exists>ps xs ms hs.
            calc_pvalues query gene_sets background = Inr (Columns ps xs ms hs) \<and>
            length ps = length gene_sets \<and> length xs = length gene_sets \<and>
            length ms = length gene_sets \<and> length hs = length gene_sets \<and>
            (\<forall>t < length gene_sets. \<exists>category.
                (names ! t, category) \<in> set gene_sets \<and>
                (ps ! t, xs ! t, ms ! t, hs ! t) = score_category k bg_num (set query) category)"
    using cols(1-5) row names(4) calc [of gene_sets] by (auto simp: assms(3))
  have second: "calc_pvalues query gene_sets' background = calc_pvalues query gene_sets background"
    if m: "mset gene_sets' = mset gene_sets" for gene_sets'
  proof -
    have "map_of gene_sets' = map_of gene_sets"
      using m assms(1) by (rule map_of_mset_cong)
    moreover have "sort (map fst gene_sets') = sort (map fst gene_sets)"
      using m by (intro sort_mset_cong) simp
    ultimately show ?thesis
      by (simp add: calc)
  qed
  show ?thesis
    using names first second by blast
qed

theorem calc_pvalues_sorted_order_witness:
  "distinct (map fst [(''cat2'', [''Q'']), (''cat1'', [''A'', ''B'', ''X'', ''Y'']), (''Cat3'', [])]) \<and>
   sort (map fst [(''cat2'', [''Q'']), (''cat1'', [''A'', ''B'', ''X'', ''Y'']), (''Cat3'', [])])
     = [''Cat3'', ''cat1'', ''cat2''] \<and>
   calc_pvalues [''A'', ''B''] [(''cat2'', [''Q'']), (''cat1'', [''A'', ''B'', ''X'', ''Y'']), (''Cat3'', [])] (Some 10)
     = Inr (Columns [Fin 1, Fin (2/15), Fin 1] [0, 2, 0] [0, 4, 1] [{}, {''A'', ''B''}, {}]) \<and>
   calc_pvalues [''A'', ''B''] [(''Cat3'', []), (''cat2'', [''Q'']), (''cat1'', [''A'', ''B'', ''X'', ''Y''])] (Some 10)
     = calc_pvalues [''A'', ''B''] [(''cat2'', [''Q'']), (''cat1'', [''A'', ''B'', ''X'', ''Y'']), (''Cat3'', [])] (Some 10)"
proof -
  let ?gs = "[(''cat2'', [''Q'']), (''cat1'', [''A'', ''B'', ''X'', ''Y'']), (''Cat3'', [])]"
  let ?gs' = "[(''Cat3'', []), (''cat2'', [''Q'']), (''cat1'', [''A'', ''B'', ''X'', ''Y''])]"
  have d: "distinct (map fst ?gs)" by simp
  have ne: "?gs \<noteq> []" by simp
  have m: "mset ?gs' = mset ?gs" by simp
  note t = calc_pvalues_sorted_order [OF d ne refl refl refl, of "[''A'', ''B'']" "Some 10"]
  note inv = t [THEN conjunct2, THEN conjunct2, THEN conjunct2, THEN conjunct2, THEN conjunct2,
      THEN spec, of ?gs', THEN mp, OF m]
  have s: "sort (map fst ?gs) = [''Cat3'', ''cat1'', ''cat2'']"
    by simp
  have c: "calc_pvalues [''A'', ''B''] ?gs (Some 10)
     = Inr (Columns [Fin 1, Fin (2/15), Fin 1] [0, 2, 0] [0, 4, 1] [{}, {''A'', ''B''}, {}])"
    by (simp add: calc_eval choose_two upt_rec binomial_eq_0)
  show ?thesis
    using d s c inv by blast
qed




text \<open>
  C6: the draw size \<open>k\<close> is taken as \<^verbatim>\<open>len(query)\<close> before \<^verbatim>\<open>query = set(query)\<close>.  For the
  query \<open>['A', 'A']\<close> and the single category \<open>{'s': ['A']}\<close> the p-value is computed
  with \<open>k = 2\<close> and is 1/10000; on the deduplicated query \<open>['A']\<close> it is computed with
  \<open>k = 1\<close> and is 1/20000.  The overlap, the category size and the hits agree.
\<close>

theorem duplicate_query_draw_size:
  "calc_pvalues [''A'', ''A''] [(''s'', [''A''])] None
     = Inr (Columns [Fin (1/10000)] [1] [1] [{''A''}]) \<and>
   remdups [''A'', ''A''] = [''A''] \<and>
   calc_pvalues [''A''] [(''s'', [''A''])] None
     = Inr (Columns [Fin (1/20000)] [1] [1] [{''A''}])"
  by (simp add: calc_eval choose_two upt_rec binomial_eq_0)

end
